theory Spec2Isabelle
  imports Main
begin

section \<open>The lifecycle context of package eactx\<close>

text \<open>
  The package wraps a Go \<^verbatim>\<open>context.Context\<close> with a lifecycle state, three callback
  registries and a monitor goroutine. The current implementation is \<^verbatim>\<open>context.go\<close>;
  \<^verbatim>\<open>main.go\<close> is the earlier draft of the same type (no \<^verbatim>\<open>Reset\<close>, \<^verbatim>\<open>Clone\<close>,
  \<^verbatim>\<open>CancelWithWait\<close>).

  The embedding has two layers.
  \<^item> The methods that touch one struct only are functions on a record.
  \<^item> The goroutines are a step function on a system state: a store of tokens, a heap of
    \<^verbatim>\<open>Context\<close> structs, the monitor goroutines with their program counters and locals,
    one calling thread, and the list of callbacks invoked so far. A schedule is a list of
    actions; every interleaving of the statements of the goroutines is a schedule.
\<close>

subsection \<open>Data\<close>

text \<open>\<^verbatim>\<open>type State int\<close> with its five constants; the zero value is \<open>Created\<close>.\<close>

datatype State = Created | Running | Canceled | Deadlined | Finished

text \<open>
  What \<^verbatim>\<open>ctx.Err()\<close> returns: nil, \<^verbatim>\<open>context.Canceled\<close>, \<^verbatim>\<open>context.DeadlineExceeded\<close>,
  or an error that is neither (a parent that is a custom \<^verbatim>\<open>context.Context\<close> may report
  any error, and a derived context inherits it).
\<close>

datatype sentinel = ErrNil | ErrCanceled | ErrDeadlineExceeded | ErrOther

text \<open>A callback \<^verbatim>\<open>func()\<close> is an identifier; invoking it appends the identifier to the
  list of invocations. A nil \<^verbatim>\<open>func()\<close> is \<open>None\<close>.\<close>

type_synonym cb = nat

text \<open>
  A key of type \<^verbatim>\<open>interface{}\<close>, as far as \<^verbatim>\<open>context.WithValue\<close> and \<^verbatim>\<open>==\<close> tell keys apart:
  \<^item> \<open>NilKey\<close>: nil;
  \<^item> \<open>Uncomparable n\<close>: a value of the uncomparable type number \<open>n\<close> (a slice, a map, a
    function);
  \<^item> \<open>Key k\<close>: a value of a comparable type on which \<^verbatim>\<open>==\<close> is an equivalence; \<open>k\<close> stands
    for the dynamic type and the value together;
  \<^item> \<open>NaNKey\<close>: a floating-point NaN, of the comparable type \<^verbatim>\<open>float64\<close>;
  \<^item> \<open>Boxed n\<close>: a value of the comparable type \<^verbatim>\<open>[1]interface{}\<close> whose element is a value
    of the uncomparable type number \<open>n\<close>, such as \<^verbatim>\<open>[1]interface{}{[]int{1}}\<close>.
\<close>

datatype 'k gokey = NilKey | Uncomparable nat | Key 'k | NaNKey | Boxed nat

datatype panic = NilKeyPanic | KeyNotComparable | ComparingUncomparable | NilPointerDereference


text \<open>
  The standard library's context as the wrapper sees it: the token that carries the done
  signal and the error (an address in the token store), and the chain of key-value pairs,
  the most recent first. A stored value is an \<^verbatim>\<open>interface{}\<close> and may be nil (\<open>None\<close>).
\<close>

record ('k, 'v) gctx =
  tok :: nat
  vals :: "('k gokey \<times> 'v option) list"

text \<open>A parent handed to a constructor or to \<^verbatim>\<open>Reset\<close>: its error at that moment and
  its values. Parents range over non-nil contexts.\<close>

record ('k, 'v) parent =
  perr :: sentinel
  pvals :: "('k gokey \<times> 'v option) list"

text \<open>
  \<^verbatim>\<open>type Context struct\<close> of \<^verbatim>\<open>context.go\<close>. \<open>cancel\<close> is the token the cancel function
  cancels; \<open>mu\<close> is true while the mutex is held; \<open>cond\<close> is \<open>None\<close> for a nil pointer;
  \<open>done_flag\<close> is the field \<^verbatim>\<open>done\<close>.
\<close>

record ('k, 'v) Context =
  ctx :: "('k, 'v) gctx"
  cancel :: nat
  mu :: bool
  cond :: "unit option"
  done_flag :: bool
  state :: State
  onDone :: "cb list"
  onCancel :: "cb list"
  onTimeout :: "cb list"

subsection \<open>Methods on one struct\<close>

definition OnDone :: "cb option \<Rightarrow> ('k, 'v) Context \<Rightarrow> ('k, 'v) Context" where
  "OnDone f cw = (case f of None \<Rightarrow> cw | Some g \<Rightarrow> cw\<lparr>onDone := onDone cw @ [g]\<rparr>)"

definition OnCancel :: "cb option \<Rightarrow> ('k, 'v) Context \<Rightarrow> ('k, 'v) Context" where
  "OnCancel f cw = (case f of None \<Rightarrow> cw | Some g \<Rightarrow> cw\<lparr>onCancel := onCancel cw @ [g]\<rparr>)"

definition OnTimeout :: "cb option \<Rightarrow> ('k, 'v) Context \<Rightarrow> ('k, 'v) Context" where
  "OnTimeout f cw = (case f of None \<Rightarrow> cw | Some g \<Rightarrow> cw\<lparr>onTimeout := onTimeout cw @ [g]\<rparr>)"

definition IsDone :: "('k, 'v) Context \<Rightarrow> bool" where
  "IsDone cw = (state cw \<noteq> Created \<and> state cw \<noteq> Running)"

text \<open>
  \<^verbatim>\<open>context.WithValue\<close> of the standard library panics on a nil key and on a key whose type
  is not comparable, and otherwise wraps the context in a new link of the chain.
\<close>

definition ctx_WithValue ::
  "('k, 'v) gctx \<Rightarrow> 'k gokey \<Rightarrow> 'v option \<Rightarrow> panic + ('k, 'v) gctx" where
  "ctx_WithValue c key val =
     (case key of
        NilKey \<Rightarrow> Inl NilKeyPanic
      | Uncomparable _ \<Rightarrow> Inl KeyNotComparable
      | _ \<Rightarrow> Inr (c\<lparr>vals := (key, val) # vals c\<rparr>))"



definition WithValue ::
  "'k gokey \<Rightarrow> 'v option \<Rightarrow> ('k, 'v) Context \<Rightarrow> panic + ('k, 'v) Context" where
  "WithValue key val cw =
     (case ctx_WithValue (ctx cw) key val of
        Inl p \<Rightarrow> Inl p
      | Inr c \<Rightarrow> Inr (cw\<lparr>ctx := c\<rparr>))"


text \<open>
  \<^verbatim>\<open>Clone\<close> builds a new struct from six fields; \<^verbatim>\<open>mu\<close>, \<^verbatim>\<open>cond\<close> and \<^verbatim>\<open>done\<close> keep their
  zero values. \<^verbatim>\<open>append([]func(){}, xs...)\<close> is a fresh slice with the elements of \<open>xs\<close>.
\<close>

definition Clone :: "('k, 'v) Context \<Rightarrow> ('k, 'v) Context" where
  "Clone cw =
     \<lparr>ctx = ctx cw, cancel = cancel cw, mu = False, cond = None, done_flag = False,
      state = state cw, onDone = [] @ onDone cw, onCancel = [] @ onCancel cw,
      onTimeout = [] @ onTimeout cw\<rparr>"

text \<open>
  The \<^verbatim>\<open>switch\<close> of \<^verbatim>\<open>startMonitoring\<close> in \<^verbatim>\<open>context.go\<close>. \<^verbatim>\<open>newState\<close> and \<^verbatim>\<open>callbacks\<close>
  start at their zero values, \<open>Created\<close> and nil, and no case assigns them for an error
  that is neither sentinel.
\<close>

definition classify :: "sentinel \<Rightarrow> ('k, 'v) Context \<Rightarrow> State \<times> cb list" where
  "classify err cw =
     (if err = ErrCanceled then (Canceled, onCancel cw)
      else if err = ErrDeadlineExceeded then (Deadlined, onTimeout cw)
      else (Created, []))"

text \<open>
  \<^verbatim>\<open>startMonitoring\<close> of \<^verbatim>\<open>main.go\<close> from the moment the done signal has fired, run without
  interference, on the three registries: the state it sets (\<open>None\<close> when it sets none) and
  the callbacks it invokes, in order.
\<close>

definition startMonitoring_main ::
  "sentinel \<Rightarrow> cb list \<Rightarrow> cb list \<Rightarrow> cb list \<Rightarrow> State option \<times> cb list" where
  "startMonitoring_main err dones cancels timeouts =
     (if err \<noteq> ErrNil then
        (case err of
           ErrCanceled \<Rightarrow> (Some Canceled, cancels @ dones)
         | ErrDeadlineExceeded \<Rightarrow> (Some Deadlined, timeouts @ dones)
         | _ \<Rightarrow> (Some Finished, dones))
      else (None, dones))"

subsection \<open>The goroutines\<close>

text \<open>
  The program counter of a monitor goroutine (\<^verbatim>\<open>startMonitoring\<close> of \<^verbatim>\<open>context.go\<close>), one
  value per statement:
  \<^item> \<open>MStart\<close>: before \<^verbatim>\<open>cw.setState(Running)\<close>;
  \<^item> \<open>MSelect\<close>: before the \<^verbatim>\<open>select\<close>, which evaluates \<^verbatim>\<open>cw.ctx.Done()\<close> once;
  \<^item> \<open>MWait\<close>: blocked on that channel;
  \<^item> \<open>MClassify\<close>: before the locked \<^verbatim>\<open>switch\<close> on \<^verbatim>\<open>cw.ctx.Err()\<close>;
  \<^item> \<open>MBranch\<close>: before \<^verbatim>\<open>if newState != Running\<close> and the \<^verbatim>\<open>setState\<close> of either branch;
  \<^item> \<open>MRangeDone\<close>: in the else branch, before \<^verbatim>\<open>range cw.onDone\<close>;
  \<^item> \<open>MCallbacks\<close>: in a \<^verbatim>\<open>range\<close> loop, \<open>callbacks\<close> still to be invoked;
  \<^item> \<open>MSetDone\<close>: before \<^verbatim>\<open>cw.done = true\<close>;
  \<^item> \<open>MBroadcast\<close>: before \<^verbatim>\<open>cw.cond.Broadcast()\<close>;
  \<^item> \<open>MExit\<close>: returned.
\<close>

datatype mpc = MStart | MSelect | MWait | MClassify | MBranch | MRangeDone | MCallbacks
  | MSetDone | MBroadcast | MExit

record monitor =
  self :: nat
  pc :: mpc
  doneTok :: nat
  newState :: State
  callbacks :: "cb list"

definition new_monitor :: "nat \<Rightarrow> monitor" where
  "new_monitor a = \<lparr>self = a, pc = MStart, doneTok = 0, newState = Created, callbacks = []\<rparr>"

text \<open>
  The calling thread: outside a call, or inside \<^verbatim>\<open>CancelWithWait\<close> on the struct at the
  given address:
  \<^item> \<open>CwwCalled\<close>: \<^verbatim>\<open>cw.Cancel()\<close> has run, before \<^verbatim>\<open>cw.mu.Lock()\<close>;
  \<^item> \<open>CwwLoop\<close>: holds the mutex, has read \<^verbatim>\<open>cw.done\<close> as false, before \<^verbatim>\<open>cw.cond.Wait()\<close>;
  \<^item> \<open>CwwWaiting\<close>: asleep in \<^verbatim>\<open>Wait\<close>, the mutex released;
  \<^item> \<open>CwwWoken\<close>: woken by a broadcast, before \<^verbatim>\<open>Wait\<close> locks the mutex again.
\<close>

datatype cpc = Idle | CwwCalled nat | CwwLoop nat | CwwWaiting nat | CwwWoken nat

datatype ('k, 'v) op =
    OpOnDone "cb option"
  | OpOnCancel "cb option"
  | OpOnTimeout "cb option"
  | OpCancel
  | OpCancelWithWait
  | OpReset "('k, 'v) parent"
  | OpWithValue "'k gokey" "'v option"
  | OpClone

text \<open>
  A scheduling choice: the calling thread starts a method on the struct at an address, the
  calling thread continues a call it is in, the monitor with the given index runs its next
  statement, or the environment (a timer, a parent) settles a token with an error.
\<close>

datatype ('k, 'v) action =
    Call nat "('k, 'v) op"
  | Proceed
  | Mon nat
  | Settle nat sentinel

text \<open>
  The system. \<open>invoked\<close> lists the callbacks invoked so far, \<open>cww_returns\<close> counts the
  calls of \<^verbatim>\<open>CancelWithWait\<close> that have returned; both only observe. \<open>panicked\<close> is set
  by a panic, which ends the program.
\<close>

record ('k, 'v) sys =
  toks :: "nat \<Rightarrow> sentinel"
  ntoks :: nat
  objs :: "nat \<Rightarrow> ('k, 'v) Context"
  nobjs :: nat
  mons :: "monitor list"
  caller :: cpc
  invoked :: "cb list"
  cww_returns :: nat
  panicked :: "panic option"

text \<open>The cancel function of a token: the first error stays.\<close>

definition cancel_tok :: "nat \<Rightarrow> (nat \<Rightarrow> sentinel) \<Rightarrow> (nat \<Rightarrow> sentinel)" where
  "cancel_tok t ts = (if ts t = ErrNil then ts(t := ErrCanceled) else ts)"

definition set_obj :: "nat \<Rightarrow> ('k, 'v) Context \<Rightarrow> ('k, 'v) sys \<Rightarrow> ('k, 'v) sys" where
  "set_obj a cw s = s\<lparr>objs := (objs s)(a := cw)\<rparr>"

definition set_mon :: "nat \<Rightarrow> monitor \<Rightarrow> ('k, 'v) sys \<Rightarrow> ('k, 'v) sys" where
  "set_mon i m s = s\<lparr>mons := (mons s)[i := m]\<rparr>"

text \<open>
  One statement of monitor \<open>i\<close>. A statement that locks the mutex does not run while the
  mutex is held. \<^verbatim>\<open>cw.done = true\<close> and \<^verbatim>\<open>cw.cond.Broadcast()\<close> take no lock.
\<close>

definition mon_step :: "nat \<Rightarrow> ('k, 'v) sys \<Rightarrow> ('k, 'v) sys" where
  "mon_step i s =
     (if i < length (mons s) then
        (let m = mons s ! i; a = self m; cw = objs s a in
         case pc m of
           MStart \<Rightarrow>
             if mu cw then s
             else set_mon i (m\<lparr>pc := MSelect\<rparr>) (set_obj a (cw\<lparr>state := Running\<rparr>) s)
         | MSelect \<Rightarrow> set_mon i (m\<lparr>pc := MWait, doneTok := tok (ctx cw)\<rparr>) s
         | MWait \<Rightarrow>
             if toks s (doneTok m) = ErrNil then s else set_mon i (m\<lparr>pc := MClassify\<rparr>) s
         | MClassify \<Rightarrow>
             if mu cw then s
             else (case classify (toks s (tok (ctx cw))) cw of
                     (ns, cbs) \<Rightarrow>
                       set_mon i (m\<lparr>pc := MBranch, newState := ns, callbacks := cbs\<rparr>) s)
         | MBranch \<Rightarrow>
             if mu cw then s
             else if newState m \<noteq> Running
               then set_mon i (m\<lparr>pc := MCallbacks\<rparr>) (set_obj a (cw\<lparr>state := newState m\<rparr>) s)
               else set_mon i (m\<lparr>pc := MRangeDone\<rparr>) (set_obj a (cw\<lparr>state := Finished\<rparr>) s)
         | MRangeDone \<Rightarrow> set_mon i (m\<lparr>pc := MCallbacks, callbacks := onDone cw\<rparr>) s
         | MCallbacks \<Rightarrow>
             (case callbacks m of
                [] \<Rightarrow> set_mon i (m\<lparr>pc := MSetDone\<rparr>) s
              | f # fs \<Rightarrow> set_mon i (m\<lparr>callbacks := fs\<rparr>) (s\<lparr>invoked := invoked s @ [f]\<rparr>))
         | MSetDone \<Rightarrow> set_mon i (m\<lparr>pc := MBroadcast\<rparr>) (set_obj a (cw\<lparr>done_flag := True\<rparr>) s)
         | MBroadcast \<Rightarrow>
             (case cond cw of
                None \<Rightarrow> s\<lparr>panicked := Some NilPointerDereference\<rparr>
              | Some _ \<Rightarrow>
                  set_mon i (m\<lparr>pc := MExit\<rparr>)
                    (if caller s = CwwWaiting a then s\<lparr>caller := CwwWoken a\<rparr> else s))
         | MExit \<Rightarrow> s)
      else s)"

text \<open>
  \<^verbatim>\<open>CancelWithWait\<close> from \<^verbatim>\<open>cw.mu.Lock()\<close> on. Locking, reading \<^verbatim>\<open>cw.done\<close> and, when it is
  true, unlocking and returning are one step; when it is false the thread keeps the mutex
  and \<^verbatim>\<open>Wait\<close> is the next step.
\<close>

definition cww_check :: "nat \<Rightarrow> ('k, 'v) sys \<Rightarrow> ('k, 'v) sys" where
  "cww_check a s =
     (let cw = objs s a in
      if mu cw then s
      else if done_flag cw then s\<lparr>caller := Idle, cww_returns := Suc (cww_returns s)\<rparr>
      else (set_obj a (cw\<lparr>mu := True\<rparr>) s)\<lparr>caller := CwwLoop a\<rparr>)"

definition proceed :: "('k, 'v) sys \<Rightarrow> ('k, 'v) sys" where
  "proceed s =
     (case caller s of
        Idle \<Rightarrow> s
      | CwwCalled a \<Rightarrow> cww_check a s
      | CwwLoop a \<Rightarrow>
          (case cond (objs s a) of
             None \<Rightarrow> s\<lparr>panicked := Some NilPointerDereference\<rparr>
           | Some _ \<Rightarrow> (set_obj a ((objs s a)\<lparr>mu := False\<rparr>) s)\<lparr>caller := CwwWaiting a\<rparr>)
      | CwwWaiting a \<Rightarrow> s
      | CwwWoken a \<Rightarrow> cww_check a s)"

text \<open>
  \<^verbatim>\<open>Reset\<close>, under the mutex: a token derived from the parent (it carries the parent's
  error if the parent has one), the fields assigned as in the source (\<^verbatim>\<open>mu\<close> and \<^verbatim>\<open>cond\<close>
  are not), and a new monitor goroutine.
\<close>

definition Reset :: "nat \<Rightarrow> ('k, 'v) parent \<Rightarrow> ('k, 'v) sys \<Rightarrow> ('k, 'v) sys" where
  "Reset a p s =
     (let cw = objs s a; t = ntoks s in
      if mu cw then s
      else (set_obj a
              (cw\<lparr>ctx := \<lparr>tok = t, vals = pvals p\<rparr>, cancel := t, state := Created,
                  onDone := [], onCancel := [], onTimeout := [], done_flag := False\<rparr>) s)
           \<lparr>toks := (toks s)(t := perr p), ntoks := Suc t,
            mons := mons s @ [new_monitor a]\<rparr>)"

text \<open>A method call of the calling thread on the struct at address \<open>a\<close>. The thread
  makes one call at a time, on a struct that exists.\<close>

definition call :: "nat \<Rightarrow> ('k, 'v) op \<Rightarrow> ('k, 'v) sys \<Rightarrow> ('k, 'v) sys" where
  "call a opr s =
     (if caller s = Idle \<and> a < nobjs s then
        (case opr of
           OpOnDone f \<Rightarrow> set_obj a (OnDone f (objs s a)) s
         | OpOnCancel f \<Rightarrow> set_obj a (OnCancel f (objs s a)) s
         | OpOnTimeout f \<Rightarrow> set_obj a (OnTimeout f (objs s a)) s
         | OpCancel \<Rightarrow> s\<lparr>toks := cancel_tok (cancel (objs s a)) (toks s)\<rparr>
         | OpCancelWithWait \<Rightarrow>
             s\<lparr>toks := cancel_tok (cancel (objs s a)) (toks s), caller := CwwCalled a\<rparr>
         | OpReset p \<Rightarrow> Reset a p s
         | OpWithValue key val \<Rightarrow>
             (case WithValue key val (objs s a) of
                Inl e \<Rightarrow> s\<lparr>panicked := Some e\<rparr>
              | Inr cw \<Rightarrow> set_obj a cw s)
         | OpClone \<Rightarrow> (set_obj (nobjs s) (Clone (objs s a)) s)\<lparr>nobjs := Suc (nobjs s)\<rparr>)
      else s)"

text \<open>The environment settles a live token: a timer fires or the parent terminates.\<close>

definition settle :: "nat \<Rightarrow> sentinel \<Rightarrow> ('k, 'v) sys \<Rightarrow> ('k, 'v) sys" where
  "settle t e s =
     (if t < ntoks s \<and> e \<noteq> ErrNil \<and> toks s t = ErrNil then s\<lparr>toks := (toks s)(t := e)\<rparr>
      else s)"

definition step :: "('k, 'v) action \<Rightarrow> ('k, 'v) sys \<Rightarrow> ('k, 'v) sys" where
  "step act s =
     (if panicked s = None then
        (case act of
           Call a opr \<Rightarrow> call a opr s
         | Proceed \<Rightarrow> proceed s
         | Mon i \<Rightarrow> mon_step i s
         | Settle t e \<Rightarrow> settle t e s)
      else s)"

fun exec :: "('k, 'v) action list \<Rightarrow> ('k, 'v) sys \<Rightarrow> ('k, 'v) sys" where
  "exec [] s = s"
| "exec (act # acts) s = exec acts (step act s)"

text \<open>
  \<^verbatim>\<open>NewContextWithCancel\<close>: the struct at address 0 with its token at address 0 of the token
  store, \<^verbatim>\<open>cond\<close> initialised, and the monitor goroutine started.
\<close>

definition zero_Context :: "('k, 'v) Context" where
  "zero_Context =
     \<lparr>ctx = \<lparr>tok = 0, vals = []\<rparr>, cancel = 0, mu = False, cond = None, done_flag = False,
      state = Created, onDone = [], onCancel = [], onTimeout = []\<rparr>"

definition NewContextWithCancel :: "('k, 'v) parent \<Rightarrow> ('k, 'v) sys" where
  "NewContextWithCancel p =
     \<lparr>toks = (\<lambda>_. ErrNil)(0 := perr p), ntoks = 1,
      objs = (\<lambda>_. zero_Context)
        (0 := zero_Context\<lparr>ctx := \<lparr>tok = 0, vals = pvals p\<rparr>, cancel := 0, state := Created,
                            cond := Some ()\<rparr>),
      nobjs = 1, mons = [new_monitor 0], caller = Idle, invoked = [], cww_returns = 0,
      panicked = None\<rparr>"

text \<open>\<^verbatim>\<open>context.Background()\<close>: never done, no values.\<close>

definition Background :: "('k, 'v) parent" where
  "Background = \<lparr>perr = ErrNil, pvals = []\<rparr>"

subsection \<open>Invariants of a generation\<close>

text \<open>
  The predicates below describe the reachable states of one generation of the struct at
  address \<open>a\<close>: \<open>i\<close> is the index of the generation's monitor, \<open>t\<close> its token, \<open>n0\<close> the
  number of returned \<^verbatim>\<open>CancelWithWait\<close> calls when the generation began.
\<close>

fun finished :: "mpc \<Rightarrow> bool" where
  "finished MBroadcast = True"
| "finished MExit = True"
| "finished _ = False"

definition classified :: "sentinel \<Rightarrow> State" where
  "classified e = (if e = ErrCanceled then Canceled
                   else if e = ErrDeadlineExceeded then Deadlined else Created)"

definition others_finished :: "nat \<Rightarrow> nat \<Rightarrow> monitor list \<Rightarrow> bool" where
  "others_finished a i ms =
     (\<forall>j < length ms. self (ms ! j) = a \<and> (j \<noteq> i \<longrightarrow> finished (pc (ms ! j))))"

definition mutex_held_by_caller :: "('k, 'v) sys \<Rightarrow> bool" where
  "mutex_held_by_caller s = (\<forall>b. mu (objs s b) = (caller s = CwwLoop b))"

fun pc_ok :: "mpc \<Rightarrow> nat \<Rightarrow> sentinel \<Rightarrow> nat \<Rightarrow> State \<Rightarrow> State \<Rightarrow> bool" where
  "pc_ok MStart t e dt ns st = True"
| "pc_ok MSelect t e dt ns st = True"
| "pc_ok MWait t e dt ns st = (dt = t)"
| "pc_ok MClassify t e dt ns st = (e \<noteq> ErrNil)"
| "pc_ok MBranch t e dt ns st = (e \<noteq> ErrNil \<and> ns = classified e)"
| "pc_ok MRangeDone t e dt ns st = False"
| "pc_ok MCallbacks t e dt ns st = (e \<noteq> ErrNil \<and> st = classified e)"
| "pc_ok MSetDone t e dt ns st = (e \<noteq> ErrNil \<and> st = classified e)"
| "pc_ok MBroadcast t e dt ns st = (e \<noteq> ErrNil \<and> st = classified e)"
| "pc_ok MExit t e dt ns st = (e \<noteq> ErrNil \<and> st = classified e)"

definition monitor_ok :: "nat \<Rightarrow> sentinel \<Rightarrow> monitor \<Rightarrow> ('k, 'v) Context \<Rightarrow> bool" where
  "monitor_ok t e m cw =
     (done_flag cw = finished (pc m) \<and> tok (ctx cw) = t \<and> cond cw \<noteq> None \<and>
      pc_ok (pc m) t e (doneTok m) (newState m) (state cw))"

definition generation :: "nat \<Rightarrow> nat \<Rightarrow> nat \<Rightarrow> nat \<Rightarrow> ('k, 'v) sys \<Rightarrow> bool" where
  "generation a i t n0 s =
     (i < length (mons s) \<and> a < nobjs s \<and>
      others_finished a i (mons s) \<and>
      mutex_held_by_caller s \<and>
      monitor_ok t (toks s t) (mons s ! i) (objs s a) \<and>
      (\<forall>b. b \<noteq> a \<longrightarrow> \<not> done_flag (objs s b)) \<and>
      n0 \<le> cww_returns s \<and>
      (n0 < cww_returns s \<longrightarrow> done_flag (objs s a)))"

fun is_reset :: "('k, 'v) action \<Rightarrow> bool" where
  "is_reset (Call a (OpReset p)) = True"
| "is_reset _ = False"

fun reset_ok :: "('k, 'v) action \<Rightarrow> ('k, 'v) sys \<Rightarrow> bool" where
  "reset_ok (Call a (OpReset p)) s = done_flag (objs s a)"
| "reset_ok _ s = True"

fun resets_after_done :: "('k, 'v) action list \<Rightarrow> ('k, 'v) sys \<Rightarrow> bool" where
  "resets_after_done [] s = True"
| "resets_after_done (act # acts) s = (reset_ok act s \<and> resets_after_done acts (step act s))"

fun is_background :: "('k, 'v) action \<Rightarrow> bool" where
  "is_background (Call a opr) = False"
| "is_background _ = True"

definition settled :: "nat \<Rightarrow> nat \<Rightarrow> nat \<Rightarrow> nat \<Rightarrow> State \<Rightarrow> cb list \<Rightarrow> ('k, 'v) sys \<Rightarrow> bool" where
  "settled a i t n0 S L s =
     (generation a i t n0 s \<and> done_flag (objs s a) \<and> state (objs s a) = S \<and>
      invoked s = L \<and> panicked s = None \<and> (caller s = Idle \<or> caller s = CwwCalled a))"

fun is_setup :: "('k, 'v) action \<Rightarrow> bool" where
  "is_setup (Mon j) = True"
| "is_setup Proceed = True"
| "is_setup (Call b (OpOnDone f)) = True"
| "is_setup (Call b (OpOnCancel f)) = True"
| "is_setup (Call b (OpOnTimeout f)) = True"
| "is_setup (Call b (OpWithValue (Key k) v)) = True"
| "is_setup _ = False"

fun is_running :: "('k, 'v) action \<Rightarrow> bool" where
  "is_running (Mon j) = True"
| "is_running Proceed = True"
| "is_running _ = False"

fun caller_in :: "nat \<Rightarrow> cpc \<Rightarrow> bool" where
  "caller_in a Idle = True"
| "caller_in a (CwwCalled b) = (b = a)"
| "caller_in a (CwwLoop b) = (b = a)"
| "caller_in a (CwwWaiting b) = (b = a)"
| "caller_in a (CwwWoken b) = (b = a)"

fun cb_ok :: "mpc \<Rightarrow> cb list \<Rightarrow> cb list \<Rightarrow> cb list \<Rightarrow> cb list \<Rightarrow> bool" where
  "cb_ok MStart R base ivk cbs = (ivk = base)"
| "cb_ok MSelect R base ivk cbs = (ivk = base)"
| "cb_ok MWait R base ivk cbs = (ivk = base)"
| "cb_ok MClassify R base ivk cbs = (ivk = base)"
| "cb_ok MBranch R base ivk cbs = (ivk = base \<and> cbs = R)"
| "cb_ok MRangeDone R base ivk cbs = False"
| "cb_ok MCallbacks R base ivk cbs = (ivk @ cbs = base @ R)"
| "cb_ok MSetDone R base ivk cbs = (ivk = base @ R)"
| "cb_ok MBroadcast R base ivk cbs = (ivk = base @ R)"
| "cb_ok MExit R base ivk cbs = (ivk = base @ R)"

definition armed :: "nat \<Rightarrow> nat \<Rightarrow> nat \<Rightarrow> nat \<Rightarrow> cb list \<Rightarrow> ('k, 'v) sys \<Rightarrow> bool" where
  "armed a i t n0 base s =
     (generation a i t n0 s \<and> toks s t = ErrNil \<and> cancel (objs s a) = t \<and>
      caller s = Idle \<and> panicked s = None \<and> invoked s = base \<and> cww_returns s = n0)"

definition cancelling ::
  "nat \<Rightarrow> nat \<Rightarrow> nat \<Rightarrow> nat \<Rightarrow> cb list \<Rightarrow> cb list \<Rightarrow> ('k, 'v) sys \<Rightarrow> bool" where
  "cancelling a i t n0 base R s =
     (generation a i t n0 s \<and> toks s t = ErrCanceled \<and> onCancel (objs s a) = R \<and>
      panicked s = None \<and> caller_in a (caller s) \<and>
      cb_ok (pc (mons s ! i)) R base (invoked s) (callbacks (mons s ! i)))"

definition asleep :: "nat \<Rightarrow> ('k, 'v) sys \<Rightarrow> bool" where
  "asleep a s = (caller s = CwwWaiting a \<and> list_all (\<lambda>m. pc m = MExit) (mons s))"

fun keeps_clones :: "('k, 'v) action \<Rightarrow> bool" where
  "keeps_clones (Call b (OpReset p)) = (b = 0)"
| "keeps_clones _ = True"


definition clones_bare :: "('k, 'v) sys \<Rightarrow> bool" where
  "clones_bare s =
     (0 < nobjs s \<and> (\<forall>j < length (mons s). self (mons s ! j) = 0) \<and>
      cond (objs s 0) \<noteq> None \<and>
      (\<forall>b. 0 < b \<longrightarrow> cond (objs s b) = None \<and> \<not> done_flag (objs s b)) \<and>
      mutex_held_by_caller s)"


fun clone_only :: "cb \<Rightarrow> ('k, 'v) action \<Rightarrow> bool" where
  "clone_only f (Call b (OpOnDone g)) = (0 < b \<or> g \<noteq> Some f)"
| "clone_only f (Call b (OpOnCancel g)) = (0 < b \<or> g \<noteq> Some f)"
| "clone_only f (Call b (OpOnTimeout g)) = (0 < b \<or> g \<noteq> Some f)"
| "clone_only f (Call b (OpReset p)) = (b = 0)"
| "clone_only f _ = True"

definition unobserved :: "cb \<Rightarrow> ('k, 'v) sys \<Rightarrow> bool" where
  "unobserved f s =
     (clones_bare s \<and> f \<notin> set (invoked s) \<and> f \<notin> set (onDone (objs s 0)) \<and>
      f \<notin> set (onCancel (objs s 0)) \<and> f \<notin> set (onTimeout (objs s 0)) \<and>
      (\<forall>j < length (mons s). f \<notin> set (callbacks (mons s ! j))))"

section \<open>Evaluation\<close>

lemmas sys_defs = step_def call_def mon_step_def proceed_def cww_check_def settle_def
  Reset_def set_obj_def set_mon_def cancel_tok_def new_monitor_def classify_def
  NewContextWithCancel_def zero_Context_def Background_def
  OnDone_def OnCancel_def OnTimeout_def WithValue_def ctx_WithValue_def Clone_def

section \<open>Registration\<close>

text \<open>
  C7. \<^verbatim>\<open>OnDone\<close>, \<^verbatim>\<open>OnCancel\<close> and \<^verbatim>\<open>OnTimeout\<close> with a nil callback leave the struct as it
  is, and so the whole system; with a callback that is not nil they append it at the end of
  their registry. None of them panics.
\<close>

theorem registration_nil_noop_else_append:
  "OnDone None cw = cw \<and> OnCancel None cw = cw \<and> OnTimeout None cw = cw \<and>
   OnDone (Some f) cw = cw\<lparr>onDone := onDone cw @ [f]\<rparr> \<and>
   OnCancel (Some f) cw = cw\<lparr>onCancel := onCancel cw @ [f]\<rparr> \<and>
   OnTimeout (Some f) cw = cw\<lparr>onTimeout := onTimeout cw @ [f]\<rparr> \<and>
   call a (OpOnDone None) s = s \<and> call a (OpOnCancel None) s = s \<and>
   call a (OpOnTimeout None) s = s \<and>
   panicked (call a (OpOnDone g) s) = panicked s \<and>
   panicked (call a (OpOnCancel g) s) = panicked s \<and>
   panicked (call a (OpOnTimeout g) s) = panicked s"
  by (simp add: OnDone_def OnCancel_def OnTimeout_def call_def set_obj_def)

section \<open>Values\<close>







section \<open>The monitor on one termination\<close>

lemma classify_never_Running: "fst (classify err cw) \<noteq> Running"
  by (simp add: classify_def)

lemma classify_unclassified:
  "err \<noteq> ErrCanceled \<Longrightarrow> err \<noteq> ErrDeadlineExceeded \<Longrightarrow> classify err cw = (Created, [])"
  by (simp add: classify_def)

text \<open>The draft in \<^verbatim>\<open>main.go\<close> ends every termination with the \<^verbatim>\<open>onDone\<close> callbacks.\<close>

lemma startMonitoring_main_onDone:
  "snd (startMonitoring_main err dones cancels timeouts) =
     (if err = ErrCanceled then cancels else if err = ErrDeadlineExceeded then timeouts else [])
       @ dones"
  by (cases err) (simp_all add: startMonitoring_main_def)

text \<open>
  C1 fails in \<^verbatim>\<open>context.go\<close>. A context with \<^verbatim>\<open>OnCancel(7)\<close>, \<^verbatim>\<open>OnTimeout(8)\<close> and
  \<^verbatim>\<open>OnDone(9)\<close> registered: after \<^verbatim>\<open>CancelWithWait\<close> has returned and the monitor has
  exited, callback 7 alone has been invoked; when a deadline settles the token, callback 8
  alone; and under a parent that ended with another error, none. Callback 9 is never
  invoked.
\<close>

theorem startMonitoring_never_dispatches_onDone:
  "invoked (exec [Call 0 (OpOnCancel (Some 7)), Call 0 (OpOnTimeout (Some 8)),
       Call 0 (OpOnDone (Some 9)), Mon 0, Mon 0, Call 0 OpCancelWithWait, Mon 0, Mon 0, Mon 0,
       Mon 0, Mon 0, Mon 0, Mon 0, Proceed]
     (NewContextWithCancel (Background :: (nat, nat) parent))) = [7] \<and>
   map pc (mons (exec [Call 0 (OpOnCancel (Some 7)), Call 0 (OpOnTimeout (Some 8)),
       Call 0 (OpOnDone (Some 9)), Mon 0, Mon 0, Call 0 OpCancelWithWait, Mon 0, Mon 0, Mon 0,
       Mon 0, Mon 0, Mon 0, Mon 0, Proceed]
     (NewContextWithCancel (Background :: (nat, nat) parent)))) = [MExit] \<and>
   cww_returns (exec [Call 0 (OpOnCancel (Some 7)), Call 0 (OpOnTimeout (Some 8)),
       Call 0 (OpOnDone (Some 9)), Mon 0, Mon 0, Call 0 OpCancelWithWait, Mon 0, Mon 0, Mon 0,
       Mon 0, Mon 0, Mon 0, Mon 0, Proceed]
     (NewContextWithCancel (Background :: (nat, nat) parent))) = 1 \<and>
   invoked (exec [Call 0 (OpOnCancel (Some 7)), Call 0 (OpOnTimeout (Some 8)),
       Call 0 (OpOnDone (Some 9)), Mon 0, Mon 0, Settle 0 ErrDeadlineExceeded, Mon 0, Mon 0,
       Mon 0, Mon 0, Mon 0, Mon 0, Mon 0]
     (NewContextWithCancel (Background :: (nat, nat) parent))) = [8] \<and>
   map pc (mons (exec [Call 0 (OpOnCancel (Some 7)), Call 0 (OpOnTimeout (Some 8)),
       Call 0 (OpOnDone (Some 9)), Mon 0, Mon 0, Settle 0 ErrDeadlineExceeded, Mon 0, Mon 0,
       Mon 0, Mon 0, Mon 0, Mon 0, Mon 0]
     (NewContextWithCancel (Background :: (nat, nat) parent)))) = [MExit] \<and>
   invoked (exec [Call 0 (OpOnCancel (Some 7)), Call 0 (OpOnTimeout (Some 8)),
       Call 0 (OpOnDone (Some 9)), Mon 0, Mon 0, Mon 0, Mon 0, Mon 0, Mon 0, Mon 0, Mon 0]
     (NewContextWithCancel \<lparr>perr = ErrOther, pvals = [] :: (nat gokey \<times> nat option) list\<rparr>)) = [] \<and>
   map pc (mons (exec [Call 0 (OpOnCancel (Some 7)), Call 0 (OpOnTimeout (Some 8)),
       Call 0 (OpOnDone (Some 9)), Mon 0, Mon 0, Mon 0, Mon 0, Mon 0, Mon 0, Mon 0, Mon 0]
     (NewContextWithCancel \<lparr>perr = ErrOther, pvals = [] :: (nat gokey \<times> nat option) list\<rparr>))) = [MExit]"
  by (simp add: sys_defs)

text \<open>
  C3 fails in \<^verbatim>\<open>context.go\<close>. Under a parent that has ended with an error that is neither
  sentinel the monitor runs to its exit and leaves the state \<open>Created\<close>, not \<open>Finished\<close>:
  \<^verbatim>\<open>newState\<close> keeps its zero value \<open>Created\<close>, which differs from \<open>Running\<close>, so the
  branch that sets \<open>Finished\<close> is not taken.
\<close>

theorem startMonitoring_unclassified_sets_Created:
  "state (objs (exec [Mon 0, Mon 0, Mon 0, Mon 0, Mon 0, Mon 0, Mon 0, Mon 0]
     (NewContextWithCancel \<lparr>perr = ErrOther, pvals = [] :: (nat gokey \<times> nat option) list\<rparr>)) 0)
     = Created \<and>
   map pc (mons (exec [Mon 0, Mon 0, Mon 0, Mon 0, Mon 0, Mon 0, Mon 0, Mon 0]
     (NewContextWithCancel \<lparr>perr = ErrOther, pvals = [] :: (nat gokey \<times> nat option) list\<rparr>)))
     = [MExit]"
  by (simp add: sys_defs)

text \<open>
  C4 fails in \<^verbatim>\<open>context.go\<close>. Under a live parent that later ends with an error that is
  neither sentinel, the state is \<open>Running\<close> after the first statement of the monitor and
  \<open>Created\<close> again after the monitor has classified the error, with no \<^verbatim>\<open>Reset\<close> between.
\<close>

theorem state_regresses_on_unclassified_error:
  "state (objs (exec [Mon 0]
     (NewContextWithCancel (Background :: (nat, nat) parent))) 0) = Running \<and>
   state (objs (exec [Mon 0, Mon 0, Settle 0 ErrOther, Mon 0, Mon 0, Mon 0]
     (NewContextWithCancel (Background :: (nat, nat) parent))) 0) = Created \<and>
   length (mons (exec [Mon 0, Mon 0, Settle 0 ErrOther, Mon 0, Mon 0, Mon 0]
     (NewContextWithCancel (Background :: (nat, nat) parent)))) = 1"
  by (simp add: sys_defs)

section \<open>One generation under every interleaving\<close>

lemma fst_classify: "fst (classify e cw) = classified e"
  by (simp add: classify_def classified_def)

lemma generation_init: "generation 0 0 0 0 (NewContextWithCancel p)"
  by (simp add: generation_def NewContextWithCancel_def zero_Context_def new_monitor_def
      others_finished_def mutex_held_by_caller_def monitor_ok_def)

lemma monitor_ok_frame [simp]:
  "monitor_ok t e m (cw\<lparr>mu := x\<rparr>) = monitor_ok t e m cw"
  "monitor_ok t e m (cw\<lparr>onDone := ds\<rparr>) = monitor_ok t e m cw"
  "monitor_ok t e m (cw\<lparr>onCancel := cs\<rparr>) = monitor_ok t e m cw"
  "monitor_ok t e m (cw\<lparr>onTimeout := ts\<rparr>) = monitor_ok t e m cw"
  "monitor_ok t e m (cw\<lparr>ctx := (ctx cw)\<lparr>vals := vs\<rparr>\<rparr>) = monitor_ok t e m cw"
  by (simp_all add: monitor_ok_def)

lemma monitor_ok_settled:
  "monitor_ok t e m cw \<Longrightarrow> e = ErrNil \<or> e' = e \<Longrightarrow> monitor_ok t e' m cw"
  by (cases "pc m") (auto simp: monitor_ok_def)

lemma generation_settle: "generation a i t n0 s \<Longrightarrow> generation a i t n0 (settle u e s)"
  unfolding generation_def settle_def mutex_held_by_caller_def
  by (auto intro: monitor_ok_settled)

lemma monitor_ok_done: "monitor_ok t e m cw \<Longrightarrow> done_flag cw = finished (pc m)"
  by (simp add: monitor_ok_def)

lemma generation_cww_check:
  "generation a i t n0 s \<Longrightarrow> caller s = CwwCalled b \<or> caller s = CwwWoken b \<Longrightarrow>
   generation a i t n0 (cww_check b s)"
  unfolding generation_def cww_check_def set_obj_def Let_def mutex_held_by_caller_def
  by (cases "b = a") auto

lemma generation_wait:
  "generation a i t n0 s \<Longrightarrow> caller s = CwwLoop b \<Longrightarrow>
   generation a i t n0 ((set_obj b ((objs s b)\<lparr>mu := False\<rparr>) s)\<lparr>caller := CwwWaiting b\<rparr>)"
  unfolding generation_def set_obj_def mutex_held_by_caller_def
  by (cases "b = a") auto

lemma generation_panicked: "generation a i t n0 s \<Longrightarrow> generation a i t n0 (s\<lparr>panicked := x\<rparr>)"
  by (simp add: generation_def mutex_held_by_caller_def)

lemma generation_proceed: "generation a i t n0 s \<Longrightarrow> generation a i t n0 (proceed s)"
  by (cases "caller s")
    (auto simp: proceed_def generation_cww_check generation_wait generation_panicked
      split: option.splits)

lemma others_finished_update:
  "others_finished a i ms \<Longrightarrow> self m = a \<Longrightarrow> j \<noteq> i \<longrightarrow> finished (pc m) \<Longrightarrow>
   others_finished a i (ms[j := m])"
  by (cases "j < length ms") (auto simp: others_finished_def nth_list_update)

lemma others_finished_self: "others_finished a i ms \<Longrightarrow> j < length ms \<Longrightarrow> self (ms ! j) = a"
  by (simp add: others_finished_def)

lemma others_finished_pc:
  "others_finished a i ms \<Longrightarrow> j < length ms \<Longrightarrow> j \<noteq> i \<Longrightarrow> finished (pc (ms ! j))"
  by (simp add: others_finished_def)

lemma finished_cases: "finished p \<Longrightarrow> p = MBroadcast \<or> p = MExit"
  by (cases p) auto

lemma generation_mon_other:
  assumes g: "generation a i t n0 s" and j: "j < length (mons s)" "j \<noteq> i"
  shows "generation a i t n0 (mon_step j s)"
proof -
  have self: "self (mons s ! j) = a" and fin: "finished (pc (mons s ! j))"
    using g j by (auto simp: generation_def others_finished_def)
  have c: "cond (objs s a) \<noteq> None" using g by (simp add: generation_def monitor_ok_def)
  from finished_cases [OF fin] show ?thesis
  proof
    assume "pc (mons s ! j) = MExit"
    then show ?thesis using g j by (simp add: mon_step_def Let_def)
  next
    assume b: "pc (mons s ! j) = MBroadcast"
    show ?thesis
      using g j self b c
      unfolding generation_def mon_step_def set_mon_def Let_def mutex_held_by_caller_def
      by (auto simp: others_finished_update)
  qed
qed

lemma classify_fst: "classify e cw = (ns, cbs) \<Longrightarrow> ns = classified e"
  using fst_classify [of e cw] by simp

lemma classified_not_Running: "classified e \<noteq> Running"
  by (simp add: classified_def)

lemma generation_mon_self:
  assumes g: "generation a i t n0 s"
  shows "generation a i t n0 (mon_step i s)"
proof -
  have i: "i < length (mons s)" and self: "self (mons s ! i) = a"
    using g by (auto simp: generation_def others_finished_def)
  show ?thesis
  proof (cases "pc (mons s ! i)")
    case MStart
    then show ?thesis using g i self
      unfolding generation_def mon_step_def set_mon_def set_obj_def Let_def
        mutex_held_by_caller_def monitor_ok_def
      by (auto simp: others_finished_update)
  next
    case MSelect
    then show ?thesis using g i self
      unfolding generation_def mon_step_def set_mon_def set_obj_def Let_def
        mutex_held_by_caller_def monitor_ok_def
      by (auto simp: others_finished_update)
  next
    case MWait
    then show ?thesis using g i self
      unfolding generation_def mon_step_def set_mon_def set_obj_def Let_def
        mutex_held_by_caller_def monitor_ok_def
      by (auto simp: others_finished_update)
  next
    case MClassify
    then show ?thesis using g i self
      unfolding generation_def mon_step_def set_mon_def set_obj_def Let_def
        mutex_held_by_caller_def monitor_ok_def
      by (auto simp: others_finished_update dest: classify_fst split: prod.splits)
  next
    case MBranch
    then show ?thesis using g i self
      unfolding generation_def mon_step_def set_mon_def set_obj_def Let_def
        mutex_held_by_caller_def monitor_ok_def
      by (auto simp: others_finished_update classified_not_Running)
  next
    case MRangeDone
    then show ?thesis using g by (simp add: generation_def monitor_ok_def)
  next
    case MCallbacks
    then show ?thesis using g i self
      unfolding generation_def mon_step_def set_mon_def set_obj_def Let_def
        mutex_held_by_caller_def monitor_ok_def
      by (auto simp: others_finished_update split: list.splits)
  next
    case MSetDone
    then show ?thesis using g i self
      unfolding generation_def mon_step_def set_mon_def set_obj_def Let_def
        mutex_held_by_caller_def monitor_ok_def
      by (auto simp: others_finished_update)
  next
    case MBroadcast
    then show ?thesis using g i self
      unfolding generation_def mon_step_def set_mon_def set_obj_def Let_def
        mutex_held_by_caller_def monitor_ok_def
      by (auto simp: others_finished_update)
  next
    case MExit
    then show ?thesis using g i by (simp add: mon_step_def Let_def)
  qed
qed

lemma generation_mon: "generation a i t n0 s \<Longrightarrow> generation a i t n0 (mon_step j s)"
  by (cases "j < length (mons s)"; cases "j = i")
    (simp_all add: generation_mon_self generation_mon_other, simp_all add: mon_step_def)

lemma generation_toks:
  "generation a i t n0 s \<Longrightarrow> toks s t = ErrNil \<or> ts t = toks s t \<Longrightarrow>
   generation a i t n0 (s\<lparr>toks := ts\<rparr>)"
  unfolding generation_def mutex_held_by_caller_def
  by (auto intro: monitor_ok_settled)

lemma generation_cancel:
  "generation a i t n0 s \<Longrightarrow> generation a i t n0 (s\<lparr>toks := cancel_tok u (toks s)\<rparr>)"
  by (rule generation_toks) (auto simp: cancel_tok_def)

lemma generation_caller_called:
  "generation a i t n0 s \<Longrightarrow> caller s = Idle \<Longrightarrow>
   generation a i t n0 (s\<lparr>caller := CwwCalled b\<rparr>)"
  by (simp add: generation_def mutex_held_by_caller_def)

lemma generation_register:
  "generation a i t n0 s \<Longrightarrow>
   generation a i t n0 (set_obj b (OnDone f (objs s b)) s) \<and>
   generation a i t n0 (set_obj b (OnCancel f (objs s b)) s) \<and>
   generation a i t n0 (set_obj b (OnTimeout f (objs s b)) s)"
  unfolding generation_def set_obj_def mutex_held_by_caller_def OnDone_def OnCancel_def
    OnTimeout_def
  by (cases "b = a"; cases f) auto

lemma generation_with_value:
  "generation a i t n0 s \<Longrightarrow> WithValue key val (objs s b) = Inr cw \<Longrightarrow>
   generation a i t n0 (set_obj b cw s)"
  unfolding generation_def set_obj_def mutex_held_by_caller_def WithValue_def ctx_WithValue_def
  by (cases "b = a"; cases key) auto

lemma generation_clone:
  "generation a i t n0 s \<Longrightarrow> caller s = Idle \<Longrightarrow>
   generation a i t n0 ((set_obj (nobjs s) (Clone (objs s b)) s)\<lparr>nobjs := Suc (nobjs s)\<rparr>)"
  unfolding generation_def set_obj_def mutex_held_by_caller_def Clone_def
  by auto

lemma generation_call:
  "generation a i t n0 s \<Longrightarrow> \<not> is_reset (Call b opr) \<Longrightarrow> generation a i t n0 (call b opr s)"
  by (cases opr)
    (auto simp: call_def generation_register generation_cancel generation_clone
      generation_with_value generation_panicked generation_caller_called
      split: sum.splits)

lemma generation_step:
  "generation a i t n0 s \<Longrightarrow> \<not> is_reset act \<Longrightarrow> generation a i t n0 (step act s)"
  by (cases act)
    (auto simp: step_def generation_call generation_proceed generation_mon generation_settle)

lemma generation_exec:
  "generation a i t n0 s \<Longrightarrow> \<forall>act \<in> set acts. \<not> is_reset act \<Longrightarrow>
   generation a i t n0 (exec acts s)"
  by (induction acts arbitrary: s) (auto simp: generation_step)

lemma generation_Reset:
  assumes g: "generation a i t n0 s" and d: "done_flag (objs s a)" and c: "caller s = Idle"
  shows "generation a (length (mons s)) (ntoks s) (cww_returns s) (Reset a p s)"
proof -
  have fin: "finished (pc (mons s ! i))" and m: "\<not> mu (objs s a)"
    using g d c by (auto simp: generation_def monitor_ok_def mutex_held_by_caller_def)
  have o: "others_finished a (length (mons s)) (mons s @ [new_monitor a])"
    using g fin
    by (auto simp: generation_def others_finished_def nth_append new_monitor_def)
  show ?thesis
    using g c m o
    unfolding generation_def Reset_def Let_def set_obj_def mutex_held_by_caller_def
    by (auto simp: monitor_ok_def new_monitor_def)
qed

lemma generation_done_unique:
  "generation a i t n0 s \<Longrightarrow> done_flag (objs s b) \<Longrightarrow> b = a"
  by (auto simp: generation_def)

lemma generation_step_reset:
  assumes g: "generation a i t n0 s" and r: "reset_ok act s"
  shows "\<exists>i' t' n0'. generation a i' t' n0' (step act s)"
proof (cases "is_reset act")
  case False
  then show ?thesis using g generation_step by blast
next
  case True
  then obtain b p where act: "act = Call b (OpReset p)"
    by (cases act rule: is_reset.cases) auto
  with r g have b: "b = a" and d: "done_flag (objs s a)"
    by (auto dest: generation_done_unique)
  show ?thesis
  proof (cases "panicked s = None \<and> caller s = Idle \<and> a < nobjs s")
    case True
    then have "step act s = Reset a p s" by (simp add: step_def call_def act b)
    then show ?thesis using generation_Reset [OF g d] True by metis
  next
    case False
    then have "step act s = s" by (auto simp: step_def call_def act b)
    then show ?thesis using g by metis
  qed
qed

lemma generation_reachable:
  "\<exists>i t n0. generation a i t n0 s \<Longrightarrow> resets_after_done acts s \<Longrightarrow>
   \<exists>i t n0. generation a i t n0 (exec acts s)"
proof (induction acts arbitrary: s)
  case Nil
  then show ?case by simp
next
  case (Cons act acts)
  then show ?case using generation_step_reset by (metis exec.simps(2) resets_after_done.simps(2))
qed

lemma exec_append: "exec (xs @ ys) s = exec ys (exec xs s)"
  by (induction xs arbitrary: s) auto

lemma generation_returned:
  "generation a i t n0 s \<Longrightarrow> n0 < cww_returns s \<Longrightarrow>
   done_flag (objs s a) \<and> finished (pc (mons s ! i)) \<and>
   state (objs s a) = classified (toks s t) \<and> toks s t \<noteq> ErrNil"
  by (cases "pc (mons s ! i)") (auto simp: generation_def monitor_ok_def)

lemma settled_all_finished:
  "generation a i t n0 s \<Longrightarrow> done_flag (objs s a) \<Longrightarrow> j < length (mons s) \<Longrightarrow>
   finished (pc (mons s ! j)) \<and> self (mons s ! j) = a \<and> cond (objs s a) \<noteq> None"
  by (cases "j = i") (auto simp: generation_def monitor_ok_def others_finished_def)

lemma finished_mon_step:
  assumes "j < length (mons s)" "finished (pc (mons s ! j))"
    "cond (objs s (self (mons s ! j))) \<noteq> None" "caller s \<noteq> CwwWaiting (self (mons s ! j))"
  shows "objs (mon_step j s) = objs s \<and> invoked (mon_step j s) = invoked s \<and>
         panicked (mon_step j s) = panicked s \<and> caller (mon_step j s) = caller s \<and>
         cww_returns (mon_step j s) = cww_returns s"
  using assms finished_cases [of "pc (mons s ! j)"]
  by (auto simp: mon_step_def Let_def set_mon_def)

lemma settled_mon:
  assumes s: "settled a i t n0 S L s"
  shows "settled a i t n0 S L (mon_step j s) \<and> caller (mon_step j s) = caller s \<and>
         cww_returns (mon_step j s) = cww_returns s"
proof (cases "j < length (mons s)")
  case False
  then show ?thesis using s by (simp add: mon_step_def)
next
  case True
  from s have g: "generation a i t n0 s" and d: "done_flag (objs s a)"
    by (auto simp: settled_def)
  from settled_all_finished [OF g d True] s
  have eq: "objs (mon_step j s) = objs s \<and> invoked (mon_step j s) = invoked s \<and>
         panicked (mon_step j s) = panicked s \<and> caller (mon_step j s) = caller s \<and>
         cww_returns (mon_step j s) = cww_returns s"
    by (intro finished_mon_step [OF True]) (auto simp: settled_def)
  have "generation a i t n0 (mon_step j s)" using g by (rule generation_mon)
  then show ?thesis using s eq by (simp add: settled_def)
qed

lemma settle_frame:
  "objs (settle u e s) = objs s" "invoked (settle u e s) = invoked s"
  "panicked (settle u e s) = panicked s" "caller (settle u e s) = caller s"
  "cww_returns (settle u e s) = cww_returns s" "mons (settle u e s) = mons s"
  by (simp_all add: settle_def)

lemma settled_settle:
  "settled a i t n0 S L s \<Longrightarrow>
   settled a i t n0 S L (settle u e s) \<and> caller (settle u e s) = caller s \<and>
   cww_returns (settle u e s) = cww_returns s"
  using generation_settle [of a i t n0 s u e]
  by (simp add: settled_def settle_frame)

lemma settled_proceed_idle:
  "settled a i t n0 S L s \<Longrightarrow> caller s = Idle \<Longrightarrow> proceed s = s"
  by (simp add: proceed_def)

lemma settled_proceed_called:
  assumes s: "settled a i t n0 S L s" and c: "caller s = CwwCalled a"
  shows "settled a i t n0 S L (proceed s) \<and> caller (proceed s) = Idle \<and>
         cww_returns (proceed s) = Suc (cww_returns s)"
proof -
  from s c have m: "\<not> mu (objs s a)" and d: "done_flag (objs s a)"
    by (auto simp: settled_def generation_def mutex_held_by_caller_def)
  then have eq: "proceed s = s\<lparr>caller := Idle, cww_returns := Suc (cww_returns s)\<rparr>"
    using c by (simp add: proceed_def cww_check_def)
  have "generation a i t n0 (proceed s)" using s generation_proceed by (auto simp: settled_def)
  then show ?thesis using s unfolding eq by (auto simp: settled_def)
qed

lemma settled_cancel:
  assumes s: "settled a i t n0 S L s" and c: "caller s = Idle"
  shows "settled a i t n0 S L (step (Call a OpCancel) s) \<and>
         caller (step (Call a OpCancel) s) = Idle \<and>
         cww_returns (step (Call a OpCancel) s) = cww_returns s"
proof -
  from s have g: "generation a i t n0 (step (Call a OpCancel) s)"
    by (auto simp: settled_def intro: generation_step)
  then show ?thesis using s c by (auto simp: settled_def step_def call_def)
qed

lemma settled_cancel_wait:
  assumes s: "settled a i t n0 S L s" and c: "caller s = Idle"
  shows "settled a i t n0 S L (step (Call a OpCancelWithWait) s) \<and>
         caller (step (Call a OpCancelWithWait) s) = CwwCalled a \<and>
         cww_returns (step (Call a OpCancelWithWait) s) = cww_returns s"
proof -
  from s have g: "generation a i t n0 (step (Call a OpCancelWithWait) s)"
    by (auto simp: settled_def intro: generation_step)
  have "a < nobjs s" using s by (simp add: settled_def generation_def)
  then show ?thesis using g s c by (auto simp: settled_def step_def call_def)
qed

text \<open>Outside a call nothing moves the calling thread.\<close>

lemma settled_idle_exec:
  "settled a i t n0 S L s \<Longrightarrow> caller s = Idle \<Longrightarrow> \<forall>act \<in> set acts. is_background act \<Longrightarrow>
   settled a i t n0 S L (exec acts s) \<and> caller (exec acts s) = Idle \<and>
   cww_returns (exec acts s) = cww_returns s"
proof (induction acts arbitrary: s)
  case Nil
  then show ?case by simp
next
  case (Cons act acts)
  have "settled a i t n0 S L (step act s) \<and> caller (step act s) = Idle \<and>
        cww_returns (step act s) = cww_returns s"
    using Cons.prems settled_mon [of a i t n0 S L s] settled_settle [of a i t n0 S L s]
    by (cases act) (auto simp: step_def settled_proceed_idle settled_def)
  then show ?case using Cons by auto
qed

text \<open>Inside the second \<^verbatim>\<open>CancelWithWait\<close> the calling thread returns at its first step.\<close>

lemma settled_called_exec:
  "settled a i t n0 S L s \<Longrightarrow> caller s = CwwCalled a \<Longrightarrow>
   \<forall>act \<in> set acts. is_background act \<Longrightarrow>
   settled a i t n0 S L (exec acts s) \<and>
   (if Proceed \<in> set acts
    then caller (exec acts s) = Idle \<and> cww_returns (exec acts s) = Suc (cww_returns s)
    else caller (exec acts s) = CwwCalled a \<and> cww_returns (exec acts s) = cww_returns s)"
proof (induction acts arbitrary: s)
  case Nil
  then show ?case by simp
next
  case (Cons act acts)
  have p: "panicked s = None" using Cons.prems by (simp add: settled_def)
  show ?case
  proof (cases "act = Proceed")
    case True
    then have st: "step act s = proceed s" using p by (simp add: step_def)
    from settled_proceed_called [OF Cons.prems(1,2)] Cons.prems(3)
      settled_idle_exec [of a i t n0 S L "proceed s" acts]
    show ?thesis unfolding True exec.simps st [unfolded True] by auto
  next
    case False
    then have "settled a i t n0 S L (step act s) \<and> caller (step act s) = CwwCalled a \<and>
        cww_returns (step act s) = cww_returns s"
      using Cons.prems p settled_mon [of a i t n0 S L s] settled_settle [of a i t n0 S L s]
      by (cases act) (auto simp: step_def)
    then show ?thesis using Cons False by auto
  qed
qed


lemma armed_pc:
  "armed a i t n0 base s \<Longrightarrow>
   pc (mons s ! i) = MStart \<or> pc (mons s ! i) = MSelect \<or> pc (mons s ! i) = MWait"
  by (cases "pc (mons s ! i)") (auto simp: armed_def generation_def monitor_ok_def)

lemma finished_mon_frame:
  assumes "j < length (mons s)" "finished (pc (mons s ! j))"
    "cond (objs s (self (mons s ! j))) \<noteq> None"
  shows "objs (mon_step j s) = objs s" "invoked (mon_step j s) = invoked s"
    "panicked (mon_step j s) = panicked s" "toks (mon_step j s) = toks s"
    "cww_returns (mon_step j s) = cww_returns s"
    "k \<noteq> j \<Longrightarrow> mons (mon_step j s) ! k = mons s ! k"
    "caller (mon_step j s) =
       (if pc (mons s ! j) = MBroadcast \<and> caller s = CwwWaiting (self (mons s ! j))
        then CwwWoken (self (mons s ! j)) else caller s)"
  using assms finished_cases [of "pc (mons s ! j)"]
  by (auto simp: mon_step_def Let_def set_mon_def)

lemma early_mon_frame:
  assumes "pc (mons s ! j) = MStart \<or> pc (mons s ! j) = MSelect \<or> pc (mons s ! j) = MWait"
  shows "invoked (mon_step j s) = invoked s" "panicked (mon_step j s) = panicked s"
    "toks (mon_step j s) = toks s" "cww_returns (mon_step j s) = cww_returns s"
    "caller (mon_step j s) = caller s" "cancel (objs (mon_step j s) b) = cancel (objs s b)"
    "onCancel (objs (mon_step j s) b) = onCancel (objs s b)"
  using assms
  by (auto simp: mon_step_def Let_def set_mon_def set_obj_def)

lemma armed_mon:
  assumes a: "armed a i t n0 base s"
  shows "armed a i t n0 base (mon_step j s)"
proof -
  from a have g: "generation a i t n0 s" by (simp add: armed_def)
  have g': "generation a i t n0 (mon_step j s)" using g by (rule generation_mon)
  show ?thesis
  proof (cases "j < length (mons s)")
    case False
    then show ?thesis using a by (simp add: mon_step_def)
  next
    case j: True
    show ?thesis
    proof (cases "j = i")
      case False
      then have f: "finished (pc (mons s ! j))"
        and c: "cond (objs s (self (mons s ! j))) \<noteq> None"
        using g j by (auto simp: generation_def others_finished_def monitor_ok_def)
      have "caller s = Idle" using a by (simp add: armed_def)
      then show ?thesis
        using a g' finished_mon_frame [OF j f c]
        by (simp add: armed_def)
    next
      case True
      show ?thesis
        using a g' early_mon_frame [OF armed_pc [OF a]]
        unfolding True by (simp add: armed_def)
    qed
  qed
qed

lemma armed_step:
  assumes a: "armed a i t n0 base s" and st: "is_setup act"
  shows "armed a i t n0 base (step act s)"
proof -
  from a have g: "generation a i t n0 s" and p: "panicked s = None" and c: "caller s = Idle"
    by (simp_all add: armed_def)
  have r: "\<not> is_reset act" using st by (cases act rule: is_setup.cases) auto
  have g': "generation a i t n0 (step act s)" using g r by (rule generation_step)
  from st show ?thesis
  proof (cases act rule: is_setup.cases)
    case (1 j)
    then show ?thesis using armed_mon [OF a] p by (simp add: step_def)
  next
    case 2
    then show ?thesis using a p c by (simp add: step_def proceed_def)
  next
    case (3 b f)
    then show ?thesis using a g'
      by (cases f) (auto simp: armed_def step_def call_def set_obj_def OnDone_def)
  next
    case (4 b f)
    then show ?thesis using a g'
      by (cases f) (auto simp: armed_def step_def call_def set_obj_def OnCancel_def)
  next
    case (5 b f)
    then show ?thesis using a g'
      by (cases f) (auto simp: armed_def step_def call_def set_obj_def OnTimeout_def)
  next
    case (6 b k v)
    then show ?thesis using a g'
      by (auto simp: armed_def step_def call_def set_obj_def WithValue_def ctx_WithValue_def)
  qed (use st in auto)
qed

lemma armed_exec:
  "armed a i t n0 base s \<Longrightarrow> \<forall>act \<in> set acts. is_setup act \<Longrightarrow>
   armed a i t n0 base (exec acts s)"
  by (induction acts arbitrary: s) (auto simp: armed_step)

lemma armed_cancel_wait:
  assumes a: "armed a i t n0 base s"
  shows "cancelling a i t n0 base (onCancel (objs s a)) (step (Call a OpCancelWithWait) s)"
proof -
  from a have g: "generation a i t n0 s" by (simp add: armed_def)
  have g': "generation a i t n0 (step (Call a OpCancelWithWait) s)"
    using g by (rule generation_step) simp
  have n: "a < nobjs s" using g by (simp add: generation_def)
  from armed_pc [OF a] a g' n show ?thesis
    by (auto simp: cancelling_def armed_def step_def call_def cancel_tok_def)
qed

lemma caller_in_woken:
  "caller_in a c \<Longrightarrow> caller_in a (if P \<and> c = CwwWaiting b then CwwWoken b else c)"
  by (cases c) auto

lemma cancelling_mon_other:
  assumes c: "cancelling a i t n0 base R s" and j: "j < length (mons s)" "j \<noteq> i"
  shows "cancelling a i t n0 base R (mon_step j s)"
proof -
  from c have g: "generation a i t n0 s" by (simp add: cancelling_def)
  have g': "generation a i t n0 (mon_step j s)" using g by (rule generation_mon)
  have f: "finished (pc (mons s ! j))" and cn: "cond (objs s (self (mons s ! j))) \<noteq> None"
    using g j by (auto simp: generation_def others_finished_def monitor_ok_def)
  have i: "mons (mon_step j s) ! i = mons s ! i"
    using finished_mon_frame(6) [OF j(1) f cn, of i] j(2) by simp
  show ?thesis
    using c g' finished_mon_frame(1-5,7) [OF j(1) f cn] i
    by (simp add: cancelling_def caller_in_woken)
qed

lemma cancelling_mon_self:
  assumes c: "cancelling a i t n0 base R s"
  shows "cancelling a i t n0 base R (mon_step i s)"
proof -
  from c have g: "generation a i t n0 s" by (simp add: cancelling_def)
  have g': "generation a i t n0 (mon_step i s)" using g by (rule generation_mon)
  have i: "i < length (mons s)" and self: "self (mons s ! i) = a"
    and cn: "cond (objs s a) \<noteq> None"
    using g by (auto simp: generation_def others_finished_def monitor_ok_def)
  have tk: "tok (ctx (objs s a)) = t" using g by (simp add: generation_def monitor_ok_def)
  have rest: "toks s t = ErrCanceled" "onCancel (objs s a) = R" "panicked s = None"
    "caller_in a (caller s)"
    "cb_ok (pc (mons s ! i)) R base (invoked s) (callbacks (mons s ! i))"
    using c by (simp_all add: cancelling_def)
  show ?thesis
  proof (cases "pc (mons s ! i)")
    case MStart
    then show ?thesis using g' i self rest
      by (auto simp: cancelling_def mon_step_def Let_def set_mon_def set_obj_def)
  next
    case MSelect
    then show ?thesis using g' i self rest
      by (auto simp: cancelling_def mon_step_def Let_def set_mon_def set_obj_def)
  next
    case MWait
    then show ?thesis using g' i self rest
      by (auto simp: cancelling_def mon_step_def Let_def set_mon_def set_obj_def)
  next
    case MClassify
    then show ?thesis using g' i self rest tk
      by (auto simp: cancelling_def mon_step_def Let_def set_mon_def set_obj_def classify_def)
  next
    case MBranch
    then have "newState (mons s ! i) \<noteq> Running"
      using g by (simp add: generation_def monitor_ok_def classified_def)
    with MBranch show ?thesis using g' i self rest
      by (auto simp: cancelling_def mon_step_def Let_def set_mon_def set_obj_def)
  next
    case MRangeDone
    then show ?thesis using rest by simp
  next
    case MCallbacks
    then show ?thesis using g' i self rest
      by (cases "callbacks (mons s ! i)")
        (auto simp: cancelling_def mon_step_def Let_def set_mon_def set_obj_def)
  next
    case MSetDone
    then show ?thesis using g' i self rest
      by (auto simp: cancelling_def mon_step_def Let_def set_mon_def set_obj_def)
  next
    case MBroadcast
    then show ?thesis using g' i self rest cn
      by (cases "caller s")
        (auto simp: cancelling_def mon_step_def Let_def set_mon_def set_obj_def)
  next
    case MExit
    then show ?thesis using c i by (simp add: mon_step_def Let_def)
  qed
qed

lemma cancelling_mon: "cancelling a i t n0 base R s \<Longrightarrow> cancelling a i t n0 base R (mon_step j s)"
  by (cases "j < length (mons s)"; cases "j = i")
    (simp_all add: cancelling_mon_self cancelling_mon_other, simp_all add: mon_step_def)

lemma cancelling_proceed:
  assumes c: "cancelling a i t n0 base R s"
  shows "cancelling a i t n0 base R (proceed s)"
proof -
  from c have g: "generation a i t n0 s" by (simp add: cancelling_def)
  have g': "generation a i t n0 (proceed s)" using g by (rule generation_proceed)
  have cn: "cond (objs s a) \<noteq> None" using g by (simp add: generation_def monitor_ok_def)
  show ?thesis
    using c g' cn
    by (cases "caller s")
      (auto simp: cancelling_def proceed_def cww_check_def set_obj_def Let_def)
qed

lemma cancelling_step:
  "cancelling a i t n0 base R s \<Longrightarrow> is_running act \<Longrightarrow>
   cancelling a i t n0 base R (step act s)"
  by (cases act) (auto simp: step_def cancelling_mon cancelling_proceed)

lemma cancelling_exec:
  "cancelling a i t n0 base R s \<Longrightarrow> \<forall>act \<in> set acts. is_running act \<Longrightarrow>
   cancelling a i t n0 base R (exec acts s)"
  by (induction acts arbitrary: s) (auto simp: cancelling_step)

lemma cancelling_returned:
  assumes c: "cancelling a i t n0 base R s" and r: "n0 < cww_returns s"
  shows "state (objs s a) = Canceled \<and> IsDone (objs s a) \<and> invoked s = base @ R \<and>
         done_flag (objs s a)"
proof -
  from c have g: "generation a i t n0 s" and t: "toks s t = ErrCanceled"
    and cb: "cb_ok (pc (mons s ! i)) R base (invoked s) (callbacks (mons s ! i))"
    by (simp_all add: cancelling_def)
  from generation_returned [OF g r] t
  have "done_flag (objs s a)" "finished (pc (mons s ! i))" "state (objs s a) = Canceled"
    by (simp_all add: classified_def)
  then show ?thesis using cb finished_cases [of "pc (mons s ! i)"]
    by (auto simp: IsDone_def)
qed

text \<open>The whole run: registrations, then \<^verbatim>\<open>CancelWithWait\<close>, then the goroutines.\<close>

lemma armed_cancel_wait_returns:
  assumes a: "armed a i t n0 base s"
    and pre: "\<forall>act \<in> set pre. is_setup act" and post: "\<forall>act \<in> set post. is_running act"
    and r: "n0 < cww_returns (exec (pre @ Call a OpCancelWithWait # post) s)"
  shows "state (objs (exec (pre @ Call a OpCancelWithWait # post) s) a) = Canceled \<and>
         IsDone (objs (exec (pre @ Call a OpCancelWithWait # post) s) a) \<and>
         invoked (exec (pre @ Call a OpCancelWithWait # post) s) =
           base @ onCancel (objs (exec pre s) a)"
proof -
  have "armed a i t n0 base (exec pre s)" using a pre by (rule armed_exec)
  then have "cancelling a i t n0 base (onCancel (objs (exec pre s) a))
      (step (Call a OpCancelWithWait) (exec pre s))"
    by (rule armed_cancel_wait)
  then have "cancelling a i t n0 base (onCancel (objs (exec pre s) a))
      (exec (pre @ Call a OpCancelWithWait # post) s)"
    using post by (simp add: exec_append cancelling_exec)
  from cancelling_returned [OF this r] show ?thesis by simp
qed




lemma armed_Reset:
  assumes g: "generation a i t n0 s" and d: "done_flag (objs s a)" and c: "caller s = Idle"
    and p: "panicked s = None" and l: "perr par = ErrNil"
  shows "armed a (length (mons s)) (ntoks s) (cww_returns s) (invoked s)
           (step (Call a (OpReset par)) s)"
proof -
  have n: "a < nobjs s" and m: "\<not> mu (objs s a)"
    using g c by (auto simp: generation_def mutex_held_by_caller_def)
  have st: "step (Call a (OpReset par)) s = Reset a par s"
    using c p n by (simp add: step_def call_def)
  show ?thesis
    unfolding st armed_def
    using generation_Reset [OF g d c, of par] c p l m
    by (simp add: Reset_def Let_def set_obj_def)
qed

lemma Reset_fields:
  assumes "caller s = Idle" "panicked s = None" "a < nobjs s" "\<not> mu (objs s a)"
  shows "state (objs (step (Call a (OpReset par)) s) a) = Created \<and>
         onDone (objs (step (Call a (OpReset par)) s) a) = [] \<and>
         onCancel (objs (step (Call a (OpReset par)) s) a) = [] \<and>
         onTimeout (objs (step (Call a (OpReset par)) s) a) = [] \<and>
         \<not> done_flag (objs (step (Call a (OpReset par)) s) a)"
  using assms by (simp add: step_def call_def Reset_def Let_def set_obj_def)

text \<open>
  After \<^verbatim>\<open>Reset\<close>. An instance made by \<^verbatim>\<open>NewContextWithCancel\<close> and used so that every
  \<^verbatim>\<open>Reset\<close> came after the monitor of the generation before had set the done flag. When the
  done flag is set and the calling thread is outside a call, \<^verbatim>\<open>Reset(parent)\<close> leaves the
  state \<open>Created\<close>, the three registries empty and the done flag cleared; and when the
  parent is live and stays live, no \<^verbatim>\<open>CancelWithWait\<close> on the new generation returns before
  the state is \<open>Canceled\<close>, in any interleaving. Whether it returns is another matter, see
  below.
\<close>

lemma Reset_then_CancelWithWait_safe:
  assumes h: "resets_after_done acts0 (NewContextWithCancel p0)"
    and d: "done_flag (objs (exec acts0 (NewContextWithCancel p0)) 0)"
    and c: "caller (exec acts0 (NewContextWithCancel p0)) = Idle"
    and p: "panicked (exec acts0 (NewContextWithCancel p0)) = None"
    and pre: "\<forall>act \<in> set pre. is_setup act" and post: "\<forall>act \<in> set post. is_running act"
  shows "state (objs (exec (acts0 @ [Call 0 (OpReset par)]) (NewContextWithCancel p0)) 0)
           = Created \<and>
         onDone (objs (exec (acts0 @ [Call 0 (OpReset par)]) (NewContextWithCancel p0)) 0) = [] \<and>
         onCancel (objs (exec (acts0 @ [Call 0 (OpReset par)]) (NewContextWithCancel p0)) 0) = [] \<and>
         onTimeout (objs (exec (acts0 @ [Call 0 (OpReset par)]) (NewContextWithCancel p0)) 0) = [] \<and>
         \<not> done_flag (objs (exec (acts0 @ [Call 0 (OpReset par)]) (NewContextWithCancel p0)) 0) \<and>
         (perr par = ErrNil \<and>
          cww_returns (exec acts0 (NewContextWithCancel p0)) <
            cww_returns (exec (acts0 @ Call 0 (OpReset par) # pre @ Call 0 OpCancelWithWait # post)
              (NewContextWithCancel p0))
          \<longrightarrow> state (objs (exec (acts0 @ Call 0 (OpReset par) # pre @ Call 0 OpCancelWithWait # post)
                 (NewContextWithCancel p0)) 0) = Canceled \<and>
              IsDone (objs (exec (acts0 @ Call 0 (OpReset par) # pre @ Call 0 OpCancelWithWait # post)
                 (NewContextWithCancel p0)) 0))"
proof -
  let ?s = "exec acts0 (NewContextWithCancel p0)"
  obtain i t n0 where g: "generation 0 i t n0 ?s"
    using generation_reachable [OF _ h] generation_init [of p0] by blast
  have n: "0 < nobjs ?s" and m: "\<not> mu (objs ?s 0)"
    using g c by (auto simp: generation_def mutex_held_by_caller_def)
  have fields: "state (objs (step (Call 0 (OpReset par)) ?s) 0) = Created \<and>
         onDone (objs (step (Call 0 (OpReset par)) ?s) 0) = [] \<and>
         onCancel (objs (step (Call 0 (OpReset par)) ?s) 0) = [] \<and>
         onTimeout (objs (step (Call 0 (OpReset par)) ?s) 0) = [] \<and>
         \<not> done_flag (objs (step (Call 0 (OpReset par)) ?s) 0)"
    by (rule Reset_fields [OF c p n m])
  have run: "state (objs (exec (pre @ Call 0 OpCancelWithWait # post)
                 (step (Call 0 (OpReset par)) ?s)) 0) = Canceled \<and>
             IsDone (objs (exec (pre @ Call 0 OpCancelWithWait # post)
                 (step (Call 0 (OpReset par)) ?s)) 0)"
    if l: "perr par = ErrNil"
      and r: "cww_returns ?s < cww_returns (exec (pre @ Call 0 OpCancelWithWait # post)
                 (step (Call 0 (OpReset par)) ?s))"
    using armed_cancel_wait_returns [OF armed_Reset [OF g d c p l] pre post r] by simp
  show ?thesis using fields run by (simp add: exec_append)
qed

lemma Reset_then_CancelWithWait_example:
  "resets_after_done [Mon 0, Mon 0, Call 0 OpCancelWithWait, Mon 0, Mon 0, Mon 0, Mon 0, Mon 0, Proceed] (NewContextWithCancel (Background :: (nat, nat) parent)) \<and>
   done_flag (objs (exec [Mon 0, Mon 0, Call 0 OpCancelWithWait, Mon 0, Mon 0, Mon 0, Mon 0, Mon 0, Proceed] (NewContextWithCancel (Background :: (nat, nat) parent))) 0) \<and>
   caller (exec [Mon 0, Mon 0, Call 0 OpCancelWithWait, Mon 0, Mon 0, Mon 0, Mon 0, Mon 0, Proceed] (NewContextWithCancel (Background :: (nat, nat) parent))) = Idle \<and>
   state (objs (exec ([Mon 0, Mon 0, Call 0 OpCancelWithWait, Mon 0, Mon 0, Mon 0, Mon 0, Mon 0, Proceed] @ [Call 0 (OpReset Background)]) (NewContextWithCancel (Background :: (nat, nat) parent))) 0) = Created \<and>
   \<not> done_flag (objs (exec ([Mon 0, Mon 0, Call 0 OpCancelWithWait, Mon 0, Mon 0, Mon 0, Mon 0, Mon 0, Proceed] @ [Call 0 (OpReset Background)]) (NewContextWithCancel (Background :: (nat, nat) parent))) 0) \<and>
   cww_returns (exec ([Mon 0, Mon 0, Call 0 OpCancelWithWait, Mon 0, Mon 0, Mon 0, Mon 0, Mon 0, Proceed] @ Call 0 (OpReset Background) # [Mon 1, Call 0 (OpOnCancel (Some 3))] @ Call 0 OpCancelWithWait # [Proceed, Proceed, Mon 0, Mon 1, Mon 1, Mon 1, Mon 1, Mon 1, Mon 1, Mon 1, Mon 1, Proceed]) (NewContextWithCancel (Background :: (nat, nat) parent))) = 2 \<and>
   state (objs (exec ([Mon 0, Mon 0, Call 0 OpCancelWithWait, Mon 0, Mon 0, Mon 0, Mon 0, Mon 0, Proceed] @ Call 0 (OpReset Background) # [Mon 1, Call 0 (OpOnCancel (Some 3))] @ Call 0 OpCancelWithWait # [Proceed, Proceed, Mon 0, Mon 1, Mon 1, Mon 1, Mon 1, Mon 1, Mon 1, Mon 1, Mon 1, Proceed]) (NewContextWithCancel (Background :: (nat, nat) parent))) 0) = Canceled \<and>
   invoked (exec ([Mon 0, Mon 0, Call 0 OpCancelWithWait, Mon 0, Mon 0, Mon 0, Mon 0, Mon 0, Proceed] @ Call 0 (OpReset Background) # [Mon 1, Call 0 (OpOnCancel (Some 3))] @ Call 0 OpCancelWithWait # [Proceed, Proceed, Mon 0, Mon 1, Mon 1, Mon 1, Mon 1, Mon 1, Mon 1, Mon 1, Mon 1, Proceed]) (NewContextWithCancel (Background :: (nat, nat) parent))) = [3]"
  using Reset_then_CancelWithWait_safe
    [of "[Mon 0, Mon 0, Call 0 OpCancelWithWait, Mon 0, Mon 0, Mon 0, Mon 0, Mon 0, Proceed]" "Background :: (nat, nat) parent" "[Mon 1, Call 0 (OpOnCancel (Some 3))]" "[Proceed, Proceed, Mon 0, Mon 1, Mon 1, Mon 1, Mon 1, Mon 1, Mon 1, Mon 1, Mon 1, Proceed]" Background]
  by (simp add: sys_defs IsDone_def)

text \<open>
  \<^verbatim>\<open>IsDone()\<close> is not enough for \<^verbatim>\<open>Reset\<close>. After \<^verbatim>\<open>Cancel()\<close> the monitor sets the state
  \<open>Canceled\<close> before it runs the callbacks and sets the done flag. A \<^verbatim>\<open>Reset\<close> at that
  moment, on an instance in a terminal state, starts a second monitor; the first one then
  sets the done flag of the new generation, and \<^verbatim>\<open>CancelWithWait\<close> returns at once while
  the state is still \<open>Created\<close>.
\<close>

lemma Reset_before_monitor_exit:
  "IsDone (objs (exec [Mon 0, Mon 0, Call 0 OpCancel, Mon 0, Mon 0, Mon 0] (NewContextWithCancel (Background :: (nat, nat) parent))) 0) \<and>
   cww_returns (exec [Mon 0, Mon 0, Call 0 OpCancel, Mon 0, Mon 0, Mon 0,
       Call 0 (OpReset Background), Mon 0, Mon 0, Call 0 OpCancelWithWait, Proceed] (NewContextWithCancel (Background :: (nat, nat) parent))) = 1 \<and>
   state (objs (exec [Mon 0, Mon 0, Call 0 OpCancel, Mon 0, Mon 0, Mon 0,
       Call 0 (OpReset Background), Mon 0, Mon 0, Call 0 OpCancelWithWait, Proceed] (NewContextWithCancel (Background :: (nat, nat) parent))) 0)
     = Created"
  by (simp add: sys_defs IsDone_def)

text \<open>Two more ways to another outcome: under a parent whose
  deadline has passed the new generation ends \<open>Deadlined\<close>, and a clone has no condition
  variable, so \<^verbatim>\<open>CancelWithWait\<close> on it after a \<^verbatim>\<open>Reset\<close> panics.\<close>

lemma Reset_under_expired_parent:
  "state (objs (exec ([Mon 0, Mon 0, Call 0 OpCancelWithWait, Mon 0, Mon 0, Mon 0, Mon 0, Mon 0, Proceed] @ [Call 0 (OpReset \<lparr>perr = ErrDeadlineExceeded, pvals = []\<rparr>),
       Mon 1, Mon 1, Mon 1, Mon 1, Mon 1, Mon 1, Mon 1, Call 0 OpCancelWithWait, Proceed])
     (NewContextWithCancel (Background :: (nat, nat) parent))) 0) = Deadlined \<and>
   cww_returns (exec ([Mon 0, Mon 0, Call 0 OpCancelWithWait, Mon 0, Mon 0, Mon 0, Mon 0, Mon 0, Proceed] @ [Call 0 (OpReset \<lparr>perr = ErrDeadlineExceeded, pvals = []\<rparr>),
       Mon 1, Mon 1, Mon 1, Mon 1, Mon 1, Mon 1, Mon 1, Call 0 OpCancelWithWait, Proceed])
     (NewContextWithCancel (Background :: (nat, nat) parent))) = 2"
  by (simp add: sys_defs)

lemma Reset_on_clone_panics:
  "panicked (exec ([Mon 0, Mon 0, Call 0 OpCancelWithWait, Mon 0, Mon 0, Mon 0, Mon 0, Mon 0, Proceed] @ [Call 0 OpClone, Call 1 (OpReset Background),
       Call 1 OpCancelWithWait, Proceed, Proceed]) (NewContextWithCancel (Background :: (nat, nat) parent))) = Some NilPointerDereference \<and>
   cww_returns (exec ([Mon 0, Mon 0, Call 0 OpCancelWithWait, Mon 0, Mon 0, Mon 0, Mon 0, Mon 0, Proceed] @ [Call 0 OpClone, Call 1 (OpReset Background),
       Call 1 OpCancelWithWait, Proceed, Proceed]) (NewContextWithCancel (Background :: (nat, nat) parent))) = 1"
  by (simp add: sys_defs)

text \<open>A calling thread asleep in \<^verbatim>\<open>Wait\<close> when every monitor has returned stays asleep:
  no goroutine is left to call \<^verbatim>\<open>Broadcast\<close>.\<close>

lemma asleep_step:
  assumes "asleep a s"
  shows "asleep a (step act s) \<and> objs (step act s) = objs s \<and>
         cww_returns (step act s) = cww_returns s \<and> invoked (step act s) = invoked s \<and>
         mons (step act s) = mons s \<and> panicked (step act s) = panicked s"
proof (cases act)
  case (Call b opr)
  then show ?thesis using assms by (simp add: asleep_def step_def call_def)
next
  case Proceed
  then show ?thesis using assms by (simp add: asleep_def step_def proceed_def)
next
  case (Mon i)
  have "i < length (mons s) \<Longrightarrow> pc (mons s ! i) = MExit"
    using assms by (simp add: asleep_def list_all_length)
  then have "mon_step i s = s" by (simp add: mon_step_def Let_def)
  then show ?thesis using assms Mon by (simp add: step_def)
next
  case (Settle t e)
  then show ?thesis using assms by (simp add: asleep_def step_def settle_def)
qed

lemma asleep_exec:
  "asleep a s \<Longrightarrow>
   asleep a (exec acts s) \<and> objs (exec acts s) = objs s \<and>
   cww_returns (exec acts s) = cww_returns s \<and> invoked (exec acts s) = invoked s \<and>
   mons (exec acts s) = mons s \<and> panicked (exec acts s) = panicked s"
proof (induction acts arbitrary: s)
  case Nil
  then show ?case by simp
next
  case (Cons act acts)
  from asleep_step [OF Cons.prems, of act] Cons.IH [of "step act s"]
  show ?case by simp
qed

text \<open>
  C5. The first half holds: \<^verbatim>\<open>Reset\<close> on a terminal instance whose monitor has returned
  leaves the state \<open>Created\<close>, the registries empty and the done flag cleared. The second
  half does not hold of the code. \<^verbatim>\<open>startMonitoring\<close> writes \<^verbatim>\<open>cw.done = true\<close> and calls
  \<^verbatim>\<open>cw.cond.Broadcast()\<close> without the mutex, so both can fall between the moment
  \<^verbatim>\<open>CancelWithWait\<close>, holding the mutex, reads \<^verbatim>\<open>cw.done\<close> as false and the moment it
  sleeps in \<^verbatim>\<open>cw.cond.Wait()\<close>. In the run below the first generation ends with
  \<^verbatim>\<open>CancelWithWait()\<close> returned and its monitor returned, \<^verbatim>\<open>Reset(context.Background())\<close>
  starts the second, and the \<^verbatim>\<open>CancelWithWait()\<close> that follows loses the wake-up: the state
  is \<open>Canceled\<close>, the done flag is set, both monitors have returned, and whatever is
  scheduled afterwards, the call does not return.
\<close>

theorem CancelWithWait_after_Reset_never_returns:
  "cww_returns (exec [Mon 0, Mon 0, Call 0 OpCancelWithWait, Mon 0, Mon 0, Mon 0, Mon 0, Mon 0, Mon 0, Proceed]
     (NewContextWithCancel (Background :: (nat, nat) parent))) = 1 \<and>
   state (objs (exec [Mon 0, Mon 0, Call 0 OpCancelWithWait, Mon 0, Mon 0, Mon 0, Mon 0, Mon 0, Mon 0, Proceed]
     (NewContextWithCancel (Background :: (nat, nat) parent))) 0) = Canceled \<and>
   map pc (mons (exec [Mon 0, Mon 0, Call 0 OpCancelWithWait, Mon 0, Mon 0, Mon 0, Mon 0, Mon 0, Mon 0, Proceed]
     (NewContextWithCancel (Background :: (nat, nat) parent)))) = [MExit] \<and>
   state (objs (exec ([Mon 0, Mon 0, Call 0 OpCancelWithWait, Mon 0, Mon 0, Mon 0, Mon 0, Mon 0, Mon 0, Proceed] @
       [Call 0 (OpReset Background)])
     (NewContextWithCancel (Background :: (nat, nat) parent))) 0) = Created \<and>
   onDone (objs (exec ([Mon 0, Mon 0, Call 0 OpCancelWithWait, Mon 0, Mon 0, Mon 0, Mon 0, Mon 0, Mon 0, Proceed] @
       [Call 0 (OpReset Background)])
     (NewContextWithCancel (Background :: (nat, nat) parent))) 0) = [] \<and>
   onCancel (objs (exec ([Mon 0, Mon 0, Call 0 OpCancelWithWait, Mon 0, Mon 0, Mon 0, Mon 0, Mon 0, Mon 0, Proceed] @
       [Call 0 (OpReset Background)])
     (NewContextWithCancel (Background :: (nat, nat) parent))) 0) = [] \<and>
   onTimeout (objs (exec ([Mon 0, Mon 0, Call 0 OpCancelWithWait, Mon 0, Mon 0, Mon 0, Mon 0, Mon 0, Mon 0, Proceed] @
       [Call 0 (OpReset Background)])
     (NewContextWithCancel (Background :: (nat, nat) parent))) 0) = [] \<and>
   \<not> done_flag (objs (exec ([Mon 0, Mon 0, Call 0 OpCancelWithWait, Mon 0, Mon 0, Mon 0, Mon 0, Mon 0, Mon 0, Proceed] @
       [Call 0 (OpReset Background)])
     (NewContextWithCancel (Background :: (nat, nat) parent))) 0) \<and>
   caller (exec ([Mon 0, Mon 0, Call 0 OpCancelWithWait, Mon 0, Mon 0, Mon 0, Mon 0, Mon 0, Mon 0, Proceed] @
       Call 0 (OpReset Background) #
       [Mon 1, Mon 1, Call 0 OpCancelWithWait, Mon 1, Mon 1, Mon 1, Proceed, Mon 1, Mon 1, Mon 1, Proceed] @ post)
       (NewContextWithCancel (Background :: (nat, nat) parent))) = CwwWaiting 0 \<and>
   cww_returns (exec ([Mon 0, Mon 0, Call 0 OpCancelWithWait, Mon 0, Mon 0, Mon 0, Mon 0, Mon 0, Mon 0, Proceed] @
       Call 0 (OpReset Background) #
       [Mon 1, Mon 1, Call 0 OpCancelWithWait, Mon 1, Mon 1, Mon 1, Proceed, Mon 1, Mon 1, Mon 1, Proceed] @ post)
       (NewContextWithCancel (Background :: (nat, nat) parent))) = 1 \<and>
   panicked (exec ([Mon 0, Mon 0, Call 0 OpCancelWithWait, Mon 0, Mon 0, Mon 0, Mon 0, Mon 0, Mon 0, Proceed] @
       Call 0 (OpReset Background) #
       [Mon 1, Mon 1, Call 0 OpCancelWithWait, Mon 1, Mon 1, Mon 1, Proceed, Mon 1, Mon 1, Mon 1, Proceed] @ post)
       (NewContextWithCancel (Background :: (nat, nat) parent))) = None \<and>
   state (objs (exec ([Mon 0, Mon 0, Call 0 OpCancelWithWait, Mon 0, Mon 0, Mon 0, Mon 0, Mon 0, Mon 0, Proceed] @
       Call 0 (OpReset Background) #
       [Mon 1, Mon 1, Call 0 OpCancelWithWait, Mon 1, Mon 1, Mon 1, Proceed, Mon 1, Mon 1, Mon 1, Proceed] @ post)
       (NewContextWithCancel (Background :: (nat, nat) parent))) 0) = Canceled \<and>
   done_flag (objs (exec ([Mon 0, Mon 0, Call 0 OpCancelWithWait, Mon 0, Mon 0, Mon 0, Mon 0, Mon 0, Mon 0, Proceed] @
       Call 0 (OpReset Background) #
       [Mon 1, Mon 1, Call 0 OpCancelWithWait, Mon 1, Mon 1, Mon 1, Proceed, Mon 1, Mon 1, Mon 1, Proceed] @ post)
       (NewContextWithCancel (Background :: (nat, nat) parent))) 0) \<and>
   map pc (mons (exec ([Mon 0, Mon 0, Call 0 OpCancelWithWait, Mon 0, Mon 0, Mon 0, Mon 0, Mon 0, Mon 0, Proceed] @
       Call 0 (OpReset Background) #
       [Mon 1, Mon 1, Call 0 OpCancelWithWait, Mon 1, Mon 1, Mon 1, Proceed, Mon 1, Mon 1, Mon 1, Proceed] @ post)
       (NewContextWithCancel (Background :: (nat, nat) parent)))) = [MExit, MExit]"
proof -
  let ?s = "(exec ([Mon 0, Mon 0, Call 0 OpCancelWithWait, Mon 0, Mon 0, Mon 0, Mon 0, Mon 0, Mon 0, Proceed] @
           Call 0 (OpReset Background) #
           [Mon 1, Mon 1, Call 0 OpCancelWithWait, Mon 1, Mon 1, Mon 1, Proceed, Mon 1, Mon 1, Mon 1, Proceed])
           (NewContextWithCancel (Background :: (nat, nat) parent)))"
  have a: "asleep 0 ?s" by (simp add: asleep_def sys_defs)
  have e: "(exec ([Mon 0, Mon 0, Call 0 OpCancelWithWait, Mon 0, Mon 0, Mon 0, Mon 0, Mon 0, Mon 0, Proceed] @
       Call 0 (OpReset Background) #
       [Mon 1, Mon 1, Call 0 OpCancelWithWait, Mon 1, Mon 1, Mon 1, Proceed, Mon 1, Mon 1, Mon 1, Proceed] @ post)
       (NewContextWithCancel (Background :: (nat, nat) parent))) = exec post ?s"
    by (simp add: exec_append)
  show ?thesis
    unfolding e using asleep_exec [OF a, of post] by (simp add: asleep_def sys_defs)
qed

lemma generation_rebase: "generation a i t n0 s \<Longrightarrow> generation a i t (cww_returns s) s"
  by (simp add: generation_def)

lemma settled_after_return:
  assumes reach: "resets_after_done acts0 (NewContextWithCancel p)"
    and nr: "\<forall>act \<in> set acts1. \<not> is_reset act"
    and ret: "cww_returns (exec acts0 (NewContextWithCancel p))
                < cww_returns (exec (acts0 @ acts1) (NewContextWithCancel p))"
    and s: "s = exec (acts0 @ acts1) (NewContextWithCancel p)"
    and c: "caller s = Idle" and np: "panicked s = None"
  shows "\<exists>i t n0. settled 0 i t n0 (state (objs s 0)) (invoked s) s \<and>
           tok (ctx (objs s 0)) = t \<and> toks s t \<noteq> ErrNil \<and>
           state (objs s 0) = classified (toks s t)"
proof -
  let ?s0 = "exec acts0 (NewContextWithCancel p)"
  from generation_reachable [OF _ reach] generation_init
  obtain i t n0 where "generation 0 i t n0 ?s0" by blast
  then have "generation 0 i t (cww_returns ?s0) ?s0" by (rule generation_rebase)
  then have g: "generation 0 i t (cww_returns ?s0) s"
    unfolding s exec_append using nr by (rule generation_exec)
  from generation_returned [OF g] ret
  have d: "done_flag (objs s 0)" and cl: "state (objs s 0) = classified (toks s t)"
    and e: "toks s t \<noteq> ErrNil"
    by (simp_all add: s)
  have "tok (ctx (objs s 0)) = t" using g by (simp add: generation_def monitor_ok_def)
  then show ?thesis using g d cl e c np by (auto simp: settled_def)
qed

text \<open>
  C10, as amended. Take any run from \<^verbatim>\<open>NewContextWithCancel\<close> in which every \<^verbatim>\<open>Reset\<close> came
  after the monitor of the generation before had set the done flag, and in which a
  \<^verbatim>\<open>CancelWithWait\<close> has returned since the last \<^verbatim>\<open>Reset\<close>, the calling thread being outside
  a call. A second \<^verbatim>\<open>Cancel()\<close> returns at once; a second \<^verbatim>\<open>CancelWithWait()\<close> returns at
  the first step the calling thread takes, without ever waiting on the condition variable;
  whatever the other goroutines and the environment do meanwhile, the state stays what it
  was and no callback is invoked. When the token of the generation ended with one of the
  two sentinel errors, that state is terminal: \<open>Canceled\<close> or \<open>Deadlined\<close>.
\<close>

theorem Cancel_after_CancelWithWait_idempotent:
  assumes "resets_after_done acts0 (NewContextWithCancel p)"
    and "\<forall>act \<in> set acts1. \<not> is_reset act"
    and "cww_returns (exec acts0 (NewContextWithCancel p))
           < cww_returns (exec (acts0 @ acts1) (NewContextWithCancel p))"
    and "s = exec (acts0 @ acts1) (NewContextWithCancel p)"
    and "caller s = Idle" and "panicked s = None"
    and "\<forall>act \<in> set acts2. is_background act"
  shows "state (objs (exec (Call 0 OpCancel # acts2) s) 0) = state (objs s 0) \<and>
         invoked (exec (Call 0 OpCancel # acts2) s) = invoked s \<and>
         caller (exec (Call 0 OpCancel # acts2) s) = Idle \<and>
         panicked (exec (Call 0 OpCancel # acts2) s) = None \<and>
         state (objs (exec (Call 0 OpCancelWithWait # acts2) s) 0) = state (objs s 0) \<and>
         invoked (exec (Call 0 OpCancelWithWait # acts2) s) = invoked s \<and>
         panicked (exec (Call 0 OpCancelWithWait # acts2) s) = None \<and>
         caller (exec (Call 0 OpCancelWithWait # acts2) s)
           = (if Proceed \<in> set acts2 then Idle else CwwCalled 0) \<and>
         cww_returns (exec (Call 0 OpCancelWithWait # acts2) s)
           = (if Proceed \<in> set acts2 then Suc (cww_returns s) else cww_returns s) \<and>
         (toks s (tok (ctx (objs s 0))) \<noteq> ErrOther \<longrightarrow>
            IsDone (objs s 0) \<and>
            (state (objs s 0) = Canceled \<or> state (objs s 0) = Deadlined))"
proof -
  from settled_after_return [OF assms(1-6)]
  obtain i t n0 where st: "settled 0 i t n0 (state (objs s 0)) (invoked s) s"
    and t: "tok (ctx (objs s 0)) = t" and e: "toks s t \<noteq> ErrNil"
    and cl: "state (objs s 0) = classified (toks s t)"
    by blast
  note c = \<open>caller s = Idle\<close>
  from settled_cancel [OF st c]
  have 1: "settled 0 i t n0 (state (objs s 0)) (invoked s) (step (Call 0 OpCancel) s)"
    and 2: "caller (step (Call 0 OpCancel) s) = Idle"
    by simp_all
  from settled_idle_exec [OF 1 2 assms(7)]
  have A: "state (objs (exec (Call 0 OpCancel # acts2) s) 0) = state (objs s 0) \<and>
         invoked (exec (Call 0 OpCancel # acts2) s) = invoked s \<and>
         caller (exec (Call 0 OpCancel # acts2) s) = Idle \<and>
         panicked (exec (Call 0 OpCancel # acts2) s) = None"
    by (simp add: settled_def)
  from settled_cancel_wait [OF st c]
  have 3: "settled 0 i t n0 (state (objs s 0)) (invoked s) (step (Call 0 OpCancelWithWait) s)"
    and 4: "caller (step (Call 0 OpCancelWithWait) s) = CwwCalled 0"
    and 5: "cww_returns (step (Call 0 OpCancelWithWait) s) = cww_returns s"
    by simp_all
  from settled_called_exec [OF 3 4 assms(7)] 5
  have B: "state (objs (exec (Call 0 OpCancelWithWait # acts2) s) 0) = state (objs s 0) \<and>
         invoked (exec (Call 0 OpCancelWithWait # acts2) s) = invoked s \<and>
         panicked (exec (Call 0 OpCancelWithWait # acts2) s) = None \<and>
         caller (exec (Call 0 OpCancelWithWait # acts2) s)
           = (if Proceed \<in> set acts2 then Idle else CwwCalled 0) \<and>
         cww_returns (exec (Call 0 OpCancelWithWait # acts2) s)
           = (if Proceed \<in> set acts2 then Suc (cww_returns s) else cww_returns s)"
    by (simp add: settled_def split: if_splits)
  have C: "toks s (tok (ctx (objs s 0))) \<noteq> ErrOther \<longrightarrow>
      IsDone (objs s 0) \<and> (state (objs s 0) = Canceled \<or> state (objs s 0) = Deadlined)"
    using e cl t by (cases "toks s t") (simp_all add: IsDone_def classified_def)
  show ?thesis using A B C by simp
qed

theorem Cancel_after_CancelWithWait_idempotent_witness:
  "resets_after_done [Call 0 (OpOnCancel (Some 4)), Mon 0, Mon 0]
     (NewContextWithCancel (Background :: (nat, nat) parent)) \<and>
   cww_returns (exec [Call 0 (OpOnCancel (Some 4)), Mon 0, Mon 0]
     (NewContextWithCancel (Background :: (nat, nat) parent))) = 0 \<and>
   cww_returns (exec ([Call 0 (OpOnCancel (Some 4)), Mon 0, Mon 0] @
       [Call 0 OpCancelWithWait, Proceed, Proceed, Mon 0, Mon 0, Mon 0, Mon 0, Mon 0, Mon 0,
        Mon 0, Proceed])
     (NewContextWithCancel (Background :: (nat, nat) parent))) = 1 \<and>
   state (objs (exec ([Call 0 (OpOnCancel (Some 4)), Mon 0, Mon 0] @
       [Call 0 OpCancelWithWait, Proceed, Proceed, Mon 0, Mon 0, Mon 0, Mon 0, Mon 0, Mon 0,
        Mon 0, Proceed])
     (NewContextWithCancel (Background :: (nat, nat) parent))) 0) = Canceled \<and>
   invoked (exec ([Call 0 (OpOnCancel (Some 4)), Mon 0, Mon 0] @
       [Call 0 OpCancelWithWait, Proceed, Proceed, Mon 0, Mon 0, Mon 0, Mon 0, Mon 0, Mon 0,
        Mon 0, Proceed])
     (NewContextWithCancel (Background :: (nat, nat) parent))) = [4] \<and>
   state (objs (exec ([Call 0 (OpOnCancel (Some 4)), Mon 0, Mon 0] @
       [Call 0 OpCancelWithWait, Proceed, Proceed, Mon 0, Mon 0, Mon 0, Mon 0, Mon 0, Mon 0,
        Mon 0, Proceed] @ [Call 0 OpCancel, Mon 0, Proceed])
     (NewContextWithCancel (Background :: (nat, nat) parent))) 0) = Canceled \<and>
   invoked (exec ([Call 0 (OpOnCancel (Some 4)), Mon 0, Mon 0] @
       [Call 0 OpCancelWithWait, Proceed, Proceed, Mon 0, Mon 0, Mon 0, Mon 0, Mon 0, Mon 0,
        Mon 0, Proceed] @ [Call 0 OpCancelWithWait, Mon 0, Proceed])
     (NewContextWithCancel (Background :: (nat, nat) parent))) = [4] \<and>
   cww_returns (exec ([Call 0 (OpOnCancel (Some 4)), Mon 0, Mon 0] @
       [Call 0 OpCancelWithWait, Proceed, Proceed, Mon 0, Mon 0, Mon 0, Mon 0, Mon 0, Mon 0,
        Mon 0, Proceed] @ [Call 0 OpCancelWithWait, Mon 0, Proceed])
     (NewContextWithCancel (Background :: (nat, nat) parent))) = 2"
  using Cancel_after_CancelWithWait_idempotent
    [of "[Call 0 (OpOnCancel (Some 4)), Mon 0, Mon 0]" "Background :: (nat, nat) parent"
        "[Call 0 OpCancelWithWait, Proceed, Proceed, Mon 0, Mon 0, Mon 0, Mon 0, Mon 0, Mon 0,
          Mon 0, Proceed]"
        "exec ([Call 0 (OpOnCancel (Some 4)), Mon 0, Mon 0] @
          [Call 0 OpCancelWithWait, Proceed, Proceed, Mon 0, Mon 0, Mon 0, Mon 0, Mon 0, Mon 0,
           Mon 0, Proceed]) (NewContextWithCancel (Background :: (nat, nat) parent))"
        "[Mon 0, Proceed]"]
  by (simp add: sys_defs IsDone_def)

text \<open>
  C10 as stated fails twice. First, \<^verbatim>\<open>IsDone()\<close> turns true before the monitor has set the
  done flag; a \<^verbatim>\<open>Reset\<close> in between starts a second monitor while the first still runs,
  and the first one sets the done flag of the new generation. \<^verbatim>\<open>CancelWithWait()\<close> then
  returns at once with the state \<open>Created\<close>; a second \<^verbatim>\<open>CancelWithWait()\<close> or \<^verbatim>\<open>Cancel()\<close>
  returns as well, and afterwards the second monitor moves the state to \<open>Canceled\<close> and
  invokes the callback. Second, under a parent that ended with an error that is neither
  sentinel, \<^verbatim>\<open>CancelWithWait()\<close> returns with the state \<open>Created\<close>, which is not terminal,
  and a second call leaves it there.
\<close>

theorem second_cancel_after_early_Reset:
  "IsDone (objs (exec [Mon 0, Mon 0, Call 0 OpCancel, Mon 0, Mon 0, Mon 0]
     (NewContextWithCancel (Background :: (nat, nat) parent))) 0) \<and>
   cww_returns (exec ([Mon 0, Mon 0, Call 0 OpCancel, Mon 0, Mon 0, Mon 0] @
        [Call 0 (OpReset Background), Call 0 (OpOnCancel (Some 5)), Mon 0, Mon 0,
        Call 0 OpCancelWithWait, Proceed])
     (NewContextWithCancel (Background :: (nat, nat) parent))) = 1 \<and>
   state (objs (exec ([Mon 0, Mon 0, Call 0 OpCancel, Mon 0, Mon 0, Mon 0] @
        [Call 0 (OpReset Background), Call 0 (OpOnCancel (Some 5)), Mon 0, Mon 0,
        Call 0 OpCancelWithWait, Proceed])
     (NewContextWithCancel (Background :: (nat, nat) parent))) 0) = Created \<and>
   invoked (exec ([Mon 0, Mon 0, Call 0 OpCancel, Mon 0, Mon 0, Mon 0] @
        [Call 0 (OpReset Background), Call 0 (OpOnCancel (Some 5)), Mon 0, Mon 0,
        Call 0 OpCancelWithWait, Proceed])
     (NewContextWithCancel (Background :: (nat, nat) parent))) = [] \<and>
   cww_returns (exec ([Mon 0, Mon 0, Call 0 OpCancel, Mon 0, Mon 0, Mon 0] @
        [Call 0 (OpReset Background), Call 0 (OpOnCancel (Some 5)), Mon 0, Mon 0,
        Call 0 OpCancelWithWait, Proceed] @
        [Call 0 OpCancelWithWait, Proceed, Mon 1, Mon 1, Mon 1, Mon 1, Mon 1, Mon 1])
     (NewContextWithCancel (Background :: (nat, nat) parent))) = 2 \<and>
   state (objs (exec ([Mon 0, Mon 0, Call 0 OpCancel, Mon 0, Mon 0, Mon 0] @
        [Call 0 (OpReset Background), Call 0 (OpOnCancel (Some 5)), Mon 0, Mon 0,
        Call 0 OpCancelWithWait, Proceed] @
        [Call 0 OpCancelWithWait, Proceed, Mon 1, Mon 1, Mon 1, Mon 1, Mon 1, Mon 1])
     (NewContextWithCancel (Background :: (nat, nat) parent))) 0) = Canceled \<and>
   invoked (exec ([Mon 0, Mon 0, Call 0 OpCancel, Mon 0, Mon 0, Mon 0] @
        [Call 0 (OpReset Background), Call 0 (OpOnCancel (Some 5)), Mon 0, Mon 0,
        Call 0 OpCancelWithWait, Proceed] @
        [Call 0 OpCancelWithWait, Proceed, Mon 1, Mon 1, Mon 1, Mon 1, Mon 1, Mon 1])
     (NewContextWithCancel (Background :: (nat, nat) parent))) = [5] \<and>
   state (objs (exec ([Mon 0, Mon 0, Call 0 OpCancel, Mon 0, Mon 0, Mon 0] @
        [Call 0 (OpReset Background), Call 0 (OpOnCancel (Some 5)), Mon 0, Mon 0,
        Call 0 OpCancelWithWait, Proceed] @
        [Call 0 OpCancel, Mon 1, Mon 1, Mon 1, Mon 1, Mon 1, Mon 1])
     (NewContextWithCancel (Background :: (nat, nat) parent))) 0) = Canceled \<and>
   invoked (exec ([Mon 0, Mon 0, Call 0 OpCancel, Mon 0, Mon 0, Mon 0] @
        [Call 0 (OpReset Background), Call 0 (OpOnCancel (Some 5)), Mon 0, Mon 0,
        Call 0 OpCancelWithWait, Proceed] @
        [Call 0 OpCancel, Mon 1, Mon 1, Mon 1, Mon 1, Mon 1, Mon 1])
     (NewContextWithCancel (Background :: (nat, nat) parent))) = [5] \<and>
   cww_returns (exec [Mon 0, Mon 0, Call 0 OpCancelWithWait, Mon 0, Mon 0, Mon 0, Mon 0, Mon 0, Proceed]
     (NewContextWithCancel \<lparr>perr = ErrOther, pvals = [] :: (nat gokey \<times> nat option) list\<rparr>)) = 1 \<and>
   state (objs (exec [Mon 0, Mon 0, Call 0 OpCancelWithWait, Mon 0, Mon 0, Mon 0, Mon 0, Mon 0, Proceed]
     (NewContextWithCancel \<lparr>perr = ErrOther, pvals = [] :: (nat gokey \<times> nat option) list\<rparr>)) 0) = Created \<and>
   \<not> IsDone (objs (exec [Mon 0, Mon 0, Call 0 OpCancelWithWait, Mon 0, Mon 0, Mon 0, Mon 0, Mon 0, Proceed]
     (NewContextWithCancel \<lparr>perr = ErrOther, pvals = [] :: (nat gokey \<times> nat option) list\<rparr>)) 0) \<and>
   cww_returns (exec ([Mon 0, Mon 0, Call 0 OpCancelWithWait, Mon 0, Mon 0, Mon 0, Mon 0, Mon 0, Proceed] @
        [Call 0 OpCancelWithWait, Proceed])
     (NewContextWithCancel \<lparr>perr = ErrOther, pvals = [] :: (nat gokey \<times> nat option) list\<rparr>)) = 2 \<and>
   state (objs (exec ([Mon 0, Mon 0, Call 0 OpCancelWithWait, Mon 0, Mon 0, Mon 0, Mon 0, Mon 0, Proceed] @
        [Call 0 OpCancelWithWait, Proceed])
     (NewContextWithCancel \<lparr>perr = ErrOther, pvals = [] :: (nat gokey \<times> nat option) list\<rparr>)) 0) = Created"
  by (simp add: sys_defs IsDone_def)

lemma clones_bare_init: "clones_bare (NewContextWithCancel p)"
  by (simp add: clones_bare_def NewContextWithCancel_def zero_Context_def new_monitor_def
      mutex_held_by_caller_def)

lemma mon_step_frame:
  "length (mons (mon_step i s)) = length (mons s)"
  "nobjs (mon_step i s) = nobjs s"
  "cww_returns (mon_step i s) = cww_returns s"
  "mu (objs (mon_step i s) b) = mu (objs s b)"
  "cond (objs (mon_step i s) b) = cond (objs s b)"
  "(caller (mon_step i s) = CwwLoop b) = (caller s = CwwLoop b)"
  "(caller (mon_step i s) = CwwCalled b) = (caller s = CwwCalled b)"
  "(caller (mon_step i s) = Idle) = (caller s = Idle)"
  by (auto simp: mon_step_def Let_def set_mon_def set_obj_def
      split: mpc.splits list.splits option.splits prod.splits)

lemma mon_step_self:
  "j < length (mons s) \<Longrightarrow> self (mons (mon_step i s) ! j) = self (mons s ! j)"
  by (cases "j = i")
    (auto simp: mon_step_def Let_def set_mon_def set_obj_def
      split: mpc.splits list.splits option.splits prod.splits)

lemma mon_step_others:
  "i < length (mons s) \<Longrightarrow> b \<noteq> self (mons s ! i) \<Longrightarrow> objs (mon_step i s) b = objs s b"
  by (auto simp: mon_step_def Let_def set_mon_def set_obj_def
      split: mpc.splits list.splits option.splits prod.splits)

lemma mon_step_beyond: "\<not> i < length (mons s) \<Longrightarrow> mon_step i s = s"
  by (simp add: mon_step_def)


lemma clones_bare_mon: "clones_bare s \<Longrightarrow> clones_bare (mon_step i s)"
proof (cases "i < length (mons s)")
  case False
  assume "clones_bare s"
  then show ?thesis using False by (simp add: mon_step_beyond)
next
  case True
  assume k: "clones_bare s"
  then have self: "self (mons s ! i) = 0" using True by (simp add: clones_bare_def)
  have "\<And>b. 0 < b \<Longrightarrow> objs (mon_step i s) b = objs s b"
    using mon_step_others [OF True] self by simp
  then show ?thesis
    using k
    by (simp add: clones_bare_def mon_step_frame mon_step_self mutex_held_by_caller_def)
qed

lemma clones_bare_settle: "clones_bare s \<Longrightarrow> clones_bare (settle t e s)"
  by (simp add: clones_bare_def settle_def mutex_held_by_caller_def)

lemma clones_bare_proceed: "clones_bare s \<Longrightarrow> clones_bare (proceed s)"
  by (auto simp: clones_bare_def proceed_def cww_check_def set_obj_def Let_def
      mutex_held_by_caller_def split: cpc.splits option.splits)

lemma clones_bare_call:
  "clones_bare s \<Longrightarrow> keeps_clones (Call b opr) \<Longrightarrow> clones_bare (call b opr s)"
  by (cases opr)
    (auto simp: clones_bare_def call_def set_obj_def Let_def mutex_held_by_caller_def
      OnDone_def OnCancel_def OnTimeout_def Reset_def Clone_def WithValue_def new_monitor_def
      nth_append split: option.splits sum.splits gokey.splits)

















lemma clone_only_keeps: "clone_only f act \<Longrightarrow> keeps_clones act"
  by (cases "(f, act)" rule: clone_only.cases) simp_all

lemma unobserved_init: "unobserved f (NewContextWithCancel p)"
  using clones_bare_init [of p]
  by (simp add: unobserved_def) (simp add: NewContextWithCancel_def new_monitor_def zero_Context_def)

lemma unobserved_mon: "unobserved f s \<Longrightarrow> unobserved f (mon_step i s)"
proof (cases "i < length (mons s)")
  case False
  assume "unobserved f s"
  then show ?thesis using False by (simp add: mon_step_beyond)
next
  case True
  assume u: "unobserved f s"
  then have self: "self (mons s ! i) = 0" and cb: "f \<notin> set (callbacks (mons s ! i))"
    using True by (simp_all add: unobserved_def clones_bare_def)
  have k: "clones_bare (mon_step i s)" using u by (simp add: unobserved_def clones_bare_mon)
  have "f \<notin> set (invoked (mon_step i s)) \<and> f \<notin> set (onDone (objs (mon_step i s) 0)) \<and>
      f \<notin> set (onCancel (objs (mon_step i s) 0)) \<and>
      f \<notin> set (onTimeout (objs (mon_step i s) 0)) \<and>
      f \<notin> set (callbacks (mons (mon_step i s) ! i))"
    using u True self cb
    by (auto simp: unobserved_def mon_step_def Let_def set_mon_def set_obj_def classify_def
        split: mpc.splits list.splits option.splits prod.splits if_splits)
  moreover have "\<And>j. j < length (mons s) \<Longrightarrow> j \<noteq> i \<Longrightarrow>
      f \<notin> set (callbacks (mons (mon_step i s) ! j))"
    using u
    by (auto simp: unobserved_def mon_step_def Let_def set_mon_def set_obj_def
        split: mpc.splits list.splits option.splits prod.splits if_splits)
  ultimately show ?thesis
    using k by (auto simp: unobserved_def mon_step_frame)
qed

lemma unobserved_settle: "unobserved f s \<Longrightarrow> unobserved f (settle t e s)"
  using clones_bare_settle [of s t e]
  by (simp add: unobserved_def) (simp add: settle_def)

lemma unobserved_proceed: "unobserved f s \<Longrightarrow> unobserved f (proceed s)"
  unfolding unobserved_def
  by (intro conjI clones_bare_proceed)
    (auto simp: proceed_def cww_check_def set_obj_def Let_def split: cpc.splits option.splits)

lemma unobserved_call:
  "unobserved f s \<Longrightarrow> clone_only f (Call b opr) \<Longrightarrow> unobserved f (call b opr s)"
  unfolding unobserved_def
  by (intro conjI clones_bare_call clone_only_keeps [of f]; cases opr)
    (auto simp: call_def set_obj_def Let_def Reset_def WithValue_def ctx_WithValue_def
      OnDone_def OnCancel_def OnTimeout_def Clone_def new_monitor_def nth_append
      clones_bare_def split: option.splits sum.splits gokey.splits)

lemma unobserved_step: "unobserved f s \<Longrightarrow> clone_only f act \<Longrightarrow> unobserved f (step act s)"
  by (cases act)
    (simp_all add: step_def unobserved_call unobserved_proceed unobserved_mon
      unobserved_settle)

lemma unobserved_exec:
  "unobserved f s \<Longrightarrow> \<forall>act \<in> set acts. clone_only f act \<Longrightarrow> unobserved f (exec acts s)"
  by (induction acts arbitrary: s) (auto simp: unobserved_step)

lemma call_Clone:
  "caller s = Idle \<Longrightarrow> panicked s = None \<Longrightarrow> a < nobjs s \<Longrightarrow>
   step (Call a OpClone) s = (set_obj (nobjs s) (Clone (objs s a)) s)\<lparr>nobjs := Suc (nobjs s)\<rparr>"
  by (simp add: step_def call_def)

text \<open>
  C6, as amended. \<^verbatim>\<open>Clone\<close> copies the token, the cancel function, the state and the three
  registries. In a state reached from \<^verbatim>\<open>NewContextWithCancel\<close>, with the calling thread
  outside a call, \<^verbatim>\<open>Clone\<close> on any struct puts the copy at a new address, leaves the
  struct it copied as it is, derives no token and starts no monitor. If a callback \<open>f\<close> is
  never registered on the constructor's struct and no clone is ever \<^verbatim>\<open>Reset\<close>, then
  registering \<open>f\<close> on the clone, in any of the three registries, never gets it invoked,
  whatever else happens before and after; and no monitor ever belongs to the clone.
\<close>

theorem Clone_shares_token_and_is_inert:
  assumes "\<forall>act \<in> set acts0. clone_only f act"
    and "s = exec acts0 (NewContextWithCancel p)"
    and "caller s = Idle" and "panicked s = None" and "a < nobjs s"
    and "s' = step (Call a OpClone) s"
    and "\<forall>act \<in> set acts1. clone_only f act"
    and "\<forall>act \<in> set acts2. clone_only f act"
    and "opr = OpOnDone (Some f) \<or> opr = OpOnCancel (Some f) \<or> opr = OpOnTimeout (Some f)"
    and "sf = exec (acts1 @ Call (nobjs s) opr # acts2) s'"
  shows "ctx (Clone cw) = ctx cw \<and> cancel (Clone cw) = cancel cw \<and>
         state (Clone cw) = state cw \<and> onDone (Clone cw) = onDone cw \<and>
         onCancel (Clone cw) = onCancel cw \<and> onTimeout (Clone cw) = onTimeout cw \<and>
         objs s' (nobjs s) = Clone (objs s a) \<and> nobjs s' = Suc (nobjs s) \<and>
         objs s' a = objs s a \<and> toks s' = toks s \<and> ntoks s' = ntoks s \<and>
         mons s' = mons s \<and>
         f \<notin> set (invoked sf) \<and>
         (\<forall>j < length (mons sf). self (mons sf ! j) \<noteq> nobjs s)"
proof -
  have 1: "ctx (Clone cw) = ctx cw \<and> cancel (Clone cw) = cancel cw \<and>
         state (Clone cw) = state cw \<and> onDone (Clone cw) = onDone cw \<and>
         onCancel (Clone cw) = onCancel cw \<and> onTimeout (Clone cw) = onTimeout cw"
    by (simp add: Clone_def)
  have s': "s' = (set_obj (nobjs s) (Clone (objs s a)) s)\<lparr>nobjs := Suc (nobjs s)\<rparr>"
    unfolding assms(6) using assms(3,4,5) by (rule call_Clone)
  have 2: "objs s' (nobjs s) = Clone (objs s a) \<and> nobjs s' = Suc (nobjs s) \<and>
         objs s' a = objs s a \<and> toks s' = toks s \<and> ntoks s' = ntoks s \<and>
         mons s' = mons s"
    using assms(5) by (simp add: s' set_obj_def)
  have u: "unobserved f s"
    unfolding assms(2) using unobserved_init assms(1) by (rule unobserved_exec)
  then have n: "0 < nobjs s" by (simp add: unobserved_def clones_bare_def)
  have "unobserved f s'"
    unfolding assms(6) using u by (rule unobserved_step) simp
  moreover have "clone_only f (Call (nobjs s) opr)" using assms(9) n by auto
  then have "\<forall>act \<in> set (acts1 @ Call (nobjs s) opr # acts2). clone_only f act"
    using assms(7,8) by auto
  ultimately have "unobserved f sf" unfolding assms(10) by (rule unobserved_exec)
  then have 3: "f \<notin> set (invoked sf) \<and>
      (\<forall>j < length (mons sf). self (mons sf ! j) \<noteq> nobjs s)"
    using n by (auto simp: unobserved_def clones_bare_def)
  show ?thesis using 1 2 3 by blast
qed

theorem Clone_shares_token_and_is_inert_witness:
  "nobjs (exec [Call 0 (OpOnCancel (Some 1)), Mon 0, Mon 0]
     (NewContextWithCancel (Background :: (nat, nat) parent))) = 1 \<and>
   state (objs (step (Call 0 OpClone) (exec [Call 0 (OpOnCancel (Some 1)), Mon 0, Mon 0]
     (NewContextWithCancel (Background :: (nat, nat) parent)))) 1) = Running \<and>
   onCancel (objs (step (Call 0 OpClone) (exec [Call 0 (OpOnCancel (Some 1)), Mon 0, Mon 0]
     (NewContextWithCancel (Background :: (nat, nat) parent)))) 1) = [1] \<and>
   onCancel (objs (exec ([Call 0 (OpOnCancel (Some 1)), Mon 0, Mon 0] @ Call 0 OpClone # [Call 1 (OpOnCancel (Some 9))] @ [Call 0 OpCancelWithWait, Mon 0, Mon 0, Mon 0, Mon 0, Mon 0, Mon 0, Mon 0, Proceed])
     (NewContextWithCancel (Background :: (nat, nat) parent))) 1) = [1, 9] \<and>
   state (objs (exec ([Call 0 (OpOnCancel (Some 1)), Mon 0, Mon 0] @ Call 0 OpClone # [Call 1 (OpOnCancel (Some 9))] @ [Call 0 OpCancelWithWait, Mon 0, Mon 0, Mon 0, Mon 0, Mon 0, Mon 0, Mon 0, Proceed])
     (NewContextWithCancel (Background :: (nat, nat) parent))) 0) = Canceled \<and>
   state (objs (exec ([Call 0 (OpOnCancel (Some 1)), Mon 0, Mon 0] @ Call 0 OpClone # [Call 1 (OpOnCancel (Some 9))] @ [Call 0 OpCancelWithWait, Mon 0, Mon 0, Mon 0, Mon 0, Mon 0, Mon 0, Mon 0, Proceed])
     (NewContextWithCancel (Background :: (nat, nat) parent))) 1) = Running \<and>
   cww_returns (exec ([Call 0 (OpOnCancel (Some 1)), Mon 0, Mon 0] @ Call 0 OpClone # [Call 1 (OpOnCancel (Some 9))] @ [Call 0 OpCancelWithWait, Mon 0, Mon 0, Mon 0, Mon 0, Mon 0, Mon 0, Mon 0, Proceed])
     (NewContextWithCancel (Background :: (nat, nat) parent))) = 1 \<and>
   invoked (exec ([Call 0 (OpOnCancel (Some 1)), Mon 0, Mon 0] @ Call 0 OpClone # [Call 1 (OpOnCancel (Some 9))] @ [Call 0 OpCancelWithWait, Mon 0, Mon 0, Mon 0, Mon 0, Mon 0, Mon 0, Mon 0, Proceed])
     (NewContextWithCancel (Background :: (nat, nat) parent))) = [1]"
  using Clone_shares_token_and_is_inert
    [of "[Call 0 (OpOnCancel (Some 1)), Mon 0, Mon 0]" 9 "exec [Call 0 (OpOnCancel (Some 1)), Mon 0, Mon 0]
     (NewContextWithCancel (Background :: (nat, nat) parent))" "Background :: (nat, nat) parent" 0
        "step (Call 0 OpClone) (exec [Call 0 (OpOnCancel (Some 1)), Mon 0, Mon 0]
     (NewContextWithCancel (Background :: (nat, nat) parent)))" "[]" "[Call 0 OpCancelWithWait, Mon 0, Mon 0, Mon 0, Mon 0, Mon 0, Mon 0, Mon 0, Proceed]" "OpOnCancel (Some 9)"
        "exec ([Call 0 (OpOnCancel (Some 1)), Mon 0, Mon 0] @ Call 0 OpClone # [Call 1 (OpOnCancel (Some 9))] @ [Call 0 OpCancelWithWait, Mon 0, Mon 0, Mon 0, Mon 0, Mon 0, Mon 0, Mon 0, Proceed])
     (NewContextWithCancel (Background :: (nat, nat) parent))" "zero_Context :: (nat, nat) Context"]
  by (simp add: sys_defs)

text \<open>
  C6 as stated fails: \<^verbatim>\<open>Reset\<close> on a clone starts a monitor for it, on a token of its own.
  A callback registered on the clone after that is invoked when the clone is cancelled;
  the monitor then dereferences the clone's nil condition variable in \<^verbatim>\<open>Broadcast\<close>.
\<close>

theorem callback_on_reset_clone_invoked:
  "invoked (exec
     [Call 0 OpClone, Call 1 (OpReset Background), Call 1 (OpOnCancel (Some 9)), Call 1 OpCancel,
       Mon 1, Mon 1, Mon 1, Mon 1, Mon 1, Mon 1]
     (NewContextWithCancel (Background :: (nat, nat) parent))) = [9] \<and>
   state (objs (exec
     [Call 0 OpClone, Call 1 (OpReset Background), Call 1 (OpOnCancel (Some 9)), Call 1 OpCancel,
       Mon 1, Mon 1, Mon 1, Mon 1, Mon 1, Mon 1]
     (NewContextWithCancel (Background :: (nat, nat) parent))) 1) = Canceled \<and>
   panicked (exec
     [Call 0 OpClone, Call 1 (OpReset Background), Call 1 (OpOnCancel (Some 9)), Call 1 OpCancel,
       Mon 1, Mon 1, Mon 1, Mon 1, Mon 1, Mon 1]
     (NewContextWithCancel (Background :: (nat, nat) parent))) = None \<and>
   panicked (exec (
     [Call 0 OpClone, Call 1 (OpReset Background), Call 1 (OpOnCancel (Some 9)), Call 1 OpCancel,
       Mon 1, Mon 1, Mon 1, Mon 1, Mon 1, Mon 1] @ [Mon 1, Mon 1, Mon 1])
     (NewContextWithCancel (Background :: (nat, nat) parent))) = Some NilPointerDereference"
  by (simp add: sys_defs)

end
